theory Spec2Isabelle
  imports Main "HOL-Library.Word"
begin

section \<open>Guest regions and the page-aligned mirror\<close>

text \<open>
  A \<open>span<u8>\<close> is a pointer and a length. Guest addresses are natural numbers:
  pointer arithmetic inside a span does not wrap. The unsigned values the source
  computes (\<open>vk::DeviceSize\<close>, \<open>size_t\<close>) are 64 bits wide: their additions, and the
  length that \<open>util::AlignUp\<close> rounds up, are written with the wrap-around.
\<close>

type_synonym u8 = "8 word"

record span =
  data :: nat
  size_bytes :: nat

definition span_end :: "span \<Rightarrow> nat" where
  "span_end s = data s + size_bytes s"

text \<open>\<open>GuestBuffer::BufferSize\<close>: the loop adds every mapping's length to \<open>size\<close>.\<close>

fun BufferSize_loop :: "nat \<Rightarrow> span list \<Rightarrow> nat" where
  "BufferSize_loop sz [] = sz"
| "BufferSize_loop sz (buffer # mappings) =
     BufferSize_loop ((sz + size_bytes buffer) mod 2 ^ 64) mappings"

definition BufferSize :: "span list \<Rightarrow> nat" where
  "BufferSize mappings = BufferSize_loop 0 mappings"

text \<open>
  Modelled from the spec: \<open>util::AlignDown\<close> and \<open>util::AlignUp\<close> are defined outside
  \<open>buffer.cpp\<close>. The spec has them move an address down, respectively up, to the next
  page boundary. The page size \<open>PAGE_SIZE\<close> is a constant defined outside
  \<open>buffer.cpp\<close> as well; it is a parameter of the functions that use it, and the
  pointer differences they compute are not negative when it is positive.
\<close>

definition AlignDown :: "nat \<Rightarrow> nat \<Rightarrow> nat" where
  "AlignDown v multiple = v - v mod multiple"

definition AlignUp :: "nat \<Rightarrow> nat \<Rightarrow> nat" where
  "AlignUp v multiple = AlignDown (v + (multiple - 1)) multiple"

text \<open>
  The two entry points of the mirror mapping service, with the arguments of the call.
\<close>

datatype mirror_request =
  CreateMirror nat nat
| CreateMirrors "span list"

text \<open>
  Modelled from the spec: \<open>CreateMirror\<close> and \<open>CreateMirrors\<close> are members of the
  process's memory manager, defined outside \<open>buffer.cpp\<close>. The spec has the service
  work at page granularity and return one contiguous, page-aligned mapping over the same
  physical memory as the spans it is given, in their order. A page is mapped whole:
  \<open>page_span\<close> widens a span to the pages it touches, from the page boundary at or
  below its start to the page boundary at or above its end; a span of no byte touches no
  page. \<open>requested_spans\<close> are the spans of a request, \<open>mapped_spans\<close> lists the
  stretches of guest pages the mapping aliases, one for each span of the request, and
  \<open>mirror_address\<close> resolves a byte offset of the mapping to the guest address it
  aliases; an offset past the mapping resolves to nothing.
\<close>

definition page_span :: "nat \<Rightarrow> span \<Rightarrow> span" where
  "page_span PAGE_SIZE r =
     (if size_bytes r = 0 then r
      else \<lparr>data = AlignDown (data r) PAGE_SIZE,
            size_bytes = AlignUp (span_end r) PAGE_SIZE - AlignDown (data r) PAGE_SIZE\<rparr>)"

fun requested_spans :: "mirror_request \<Rightarrow> span list" where
  "requested_spans (CreateMirror alignedData alignedSize) =
     [\<lparr>data = alignedData, size_bytes = alignedSize\<rparr>]"
| "requested_spans (CreateMirrors regions) = regions"

definition mapped_spans :: "nat \<Rightarrow> mirror_request \<Rightarrow> span list" where
  "mapped_spans PAGE_SIZE request = map (page_span PAGE_SIZE) (requested_spans request)"

fun mirror_address :: "span list \<Rightarrow> nat \<Rightarrow> nat option" where
  "mirror_address [] off = None"
| "mirror_address (r # rs) off =
     (if off < size_bytes r then Some (data r + off)
      else mirror_address rs (off - size_bytes r))"

text \<open>
  The outcomes of a call other than a return. \<open>InvalidArgument\<close> is a failure reported
  to the caller. The other four are executions that C++ leaves undefined:
  \<open>front()\<close> of an empty vector, a copy past the end of the host allocation, an access
  outside the span \<open>mirror\<close> or past the mapping, and a call through a null cycle.
\<close>

datatype fault = InvalidArgument | EmptyMappings | BackingOverrun | MirrorOverrun | NullCycle

text \<open>
  The loop of \<open>Buffer::SetupGuestMappings\<close> over the mappings strictly between the
  first and the last one.
\<close>

fun inner_mappings :: "span list \<Rightarrow> span list \<times> nat \<Rightarrow> span list \<times> nat" where
  "inner_mappings [] (alignedMappings, totalSize) = (alignedMappings, totalSize)"
| "inner_mappings (it # rest) (alignedMappings, totalSize) =
     (let mappingSize = size_bytes it
      in inner_mappings rest
           (alignedMappings @ [\<lparr>data = data it, size_bytes = mappingSize\<rparr>],
            (totalSize + mappingSize) mod 2 ^ 64))"

text \<open>
  \<open>Buffer::SetupGuestMappings\<close>. The result is the request sent to the mapping service
  (\<open>alignedMirror\<close> is what it returns) and the offset and length of \<open>mirror\<close>, the
  sub-span taken of it. Every vector that does not hold exactly one mapping takes the
  second branch, the empty one included, where \<open>front()\<close> is undefined. The length of
  the last span is the \<open>size_t\<close> that \<open>util::AlignUp\<close> returns for the \<open>size_t\<close>
  \<open>backMapping.size()\<close>.
\<close>

definition SetupGuestMappings :: "nat \<Rightarrow> span list \<Rightarrow> fault + (mirror_request \<times> nat \<times> nat)" where
  "SetupGuestMappings PAGE_SIZE mappings =
     (if length mappings = 1 then
        (let mapping = hd mappings;
             alignedData = AlignDown (data mapping) PAGE_SIZE;
             alignedSize = AlignUp (data mapping + size_bytes mapping) PAGE_SIZE - alignedData
         in Inr (CreateMirror alignedData alignedSize,
                 data mapping - alignedData, size_bytes mapping))
      else if mappings = [] then Inl EmptyMappings
      else
        (let frontMapping = hd mappings;
             alignedData = AlignDown (data frontMapping) PAGE_SIZE;
             first = \<lparr>data = alignedData,
                      size_bytes = (data frontMapping + size_bytes frontMapping) - alignedData\<rparr>;
             (alignedMappings, totalSize) =
               inner_mappings (butlast (tl mappings)) ([first], size_bytes frontMapping);
             backMapping = last mappings;
             totalSize' = (totalSize + size_bytes backMapping) mod 2 ^ 64;
             alignedMappings' = alignedMappings @
               [\<lparr>data = data backMapping,
                 size_bytes = AlignUp (size_bytes backMapping) PAGE_SIZE mod 2 ^ 64\<rparr>]
         in Inr (CreateMirrors alignedMappings',
                 data frontMapping - alignedData, totalSize')))"


section \<open>The Buffer and the part of the process it reads and writes\<close>

type_synonym cycle_id = nat
type_synonym view_id = nat
type_synonym Format = nat

text \<open>
  \<open>BufferGuestSync\<close> is the only \<open>FenceCycleDependency\<close> of \<open>buffer.cpp\<close>; it holds a
  shared pointer to the Buffer that attached it.
\<close>

datatype FenceCycleDependency = BufferGuestSync

text \<open>
  A \<open>BufferView\<close>: the constructor stores its arguments. The owning Buffer is left out
  of the record, every view of the cache below belongs to the Buffer of the world.
\<close>

record BufferView =
  offset :: nat
  range_v :: nat
  format :: Format

text \<open>
  The memory and the objects outside the Buffer: guest memory by address, the bytes of
  the host allocation \<open>backing\<close> by offset (the allocation is \<open>size\<close> bytes long), the
  dependencies attached to each fence cycle, and the \<open>BufferView\<close> objects that are
  alive (\<open>weak_ptr::lock\<close> yields nothing for every other identity).
\<close>

record environment =
  memory :: "nat \<Rightarrow> u8"
  backing :: "nat \<Rightarrow> u8"
  attached :: "cycle_id \<Rightarrow> FenceCycleDependency list"
  view_objects :: "view_id \<Rightarrow> BufferView option"

text \<open>
  The calls the Buffer makes on its collaborators and the copies it performs, in the
  order of execution.
\<close>

datatype call =
  AllocateBuffer nat
| MirrorRequest mirror_request
| Munmap "span list"
| MutexLock
| MutexUnlock
| FenceWait cycle_id
| FenceAttach cycle_id FenceCycleDependency
| CopyToHost span
| CopyToGuest span

text \<open>
  The members of \<open>Buffer\<close>, followed by the environment and the calls made so far.
  \<open>alignedMirror\<close> is the mapping the service returned, given by the stretches of
  guest pages it aliases, and \<open>None\<close> while the span is not valid; \<open>mirror\<close> is the
  offset and the length of the sub-span taken of it. \<open>cycle\<close> is the weak pointer
  to the pending fence cycle: \<open>None\<close> stands for an empty and for an expired pointer,
  which \<open>lock()\<close> does not tell apart.
\<close>

record world =
  size_buffer :: nat
  guest :: "span list"
  mirror :: "nat \<times> nat"
  alignedMirror :: "span list option"
  cycle :: "cycle_id option"
  views :: "view_id list"
  env :: environment
  calls :: "call list"

text \<open>
  \<open>std::memcpy\<close> of \<open>n\<close> bytes from position \<open>s\<close> of \<open>src\<close> to position \<open>d\<close> of \<open>dst\<close>,
  source and destination being different memories.
\<close>

definition memcpy :: "(nat \<Rightarrow> u8) \<Rightarrow> nat \<Rightarrow> (nat \<Rightarrow> u8) \<Rightarrow> nat \<Rightarrow> nat \<Rightarrow> (nat \<Rightarrow> u8)" where
  "memcpy dst d src s n = (\<lambda>a. if d \<le> a \<and> a < d + n then src (s + (a - d)) else dst a)"

text \<open>
  \<open>FenceCycle::Wait\<close> is defined outside \<open>buffer.cpp\<close>. It is the parameter \<open>Wait\<close> of
  every function below. A wait blocks until the GPU work of the cycle is complete, and
  the dependencies attached to the cycle are destroyed; the destructor of a
  \<open>BufferGuestSync\<close> among them enters \<open>SynchronizeGuest\<close> of the Buffer that is
  waiting. So \<open>Wait\<close> is given the cycle and the Buffer as it is when the wait starts,
  and returns the environment the wait leaves and the calls and copies made while it
  lasted. Of the members of the Buffer the functions a wait can enter write \<open>cycle\<close>
  only, by the reset that follows a wait. \<open>Buffer::WaitOnFence\<close> waits on the pending
  cycle, if there is one, and resets the weak pointer.
\<close>

type_synonym fence_wait = "cycle_id \<Rightarrow> world \<Rightarrow> environment \<times> call list"

definition WaitOnFence :: "fence_wait \<Rightarrow> world \<Rightarrow> world" where
  "WaitOnFence Wait w =
     (case cycle w of
        None \<Rightarrow> w
      | Some lCycle \<Rightarrow>
          w\<lparr>env := fst (Wait lCycle w),
            calls := calls w @ FenceWait lCycle # snd (Wait lCycle w),
            cycle := None\<rparr>)"

text \<open>
  The copy loop of \<open>Buffer::SynchronizeHost\<close>; \<open>host\<close> is the position in the host
  allocation. A copy that would pass the end of the allocation is a fault.
\<close>

fun SynchronizeHost_loop :: "span list \<Rightarrow> nat \<Rightarrow> world \<Rightarrow> fault + world" where
  "SynchronizeHost_loop [] host w = Inr w"
| "SynchronizeHost_loop (mapping # mappings) host w =
     (let mappingSize = size_bytes mapping
      in if host + mappingSize \<le> size_buffer w
         then SynchronizeHost_loop mappings (host + mappingSize)
                (w\<lparr>env := (env w)\<lparr>backing :=
                       memcpy (backing (env w)) host (memory (env w)) (data mapping) mappingSize\<rparr>,
                    calls := calls w @ [CopyToHost mapping]\<rparr>)
         else Inl BackingOverrun)"

definition SynchronizeHost :: "fence_wait \<Rightarrow> world \<Rightarrow> fault + world" where
  "SynchronizeHost Wait w =
     (let w' = WaitOnFence Wait w
      in SynchronizeHost_loop (guest w') 0 w')"

text \<open>
  \<open>Buffer::SynchronizeHostWithCycle\<close> repeats the loop of \<open>SynchronizeHost\<close> in the
  source; the model repeats it as well.
\<close>

fun SynchronizeHostWithCycle_loop :: "span list \<Rightarrow> nat \<Rightarrow> world \<Rightarrow> fault + world" where
  "SynchronizeHostWithCycle_loop [] host w = Inr w"
| "SynchronizeHostWithCycle_loop (mapping # mappings) host w =
     (let mappingSize = size_bytes mapping
      in if host + mappingSize \<le> size_buffer w
         then SynchronizeHostWithCycle_loop mappings (host + mappingSize)
                (w\<lparr>env := (env w)\<lparr>backing :=
                       memcpy (backing (env w)) host (memory (env w)) (data mapping) mappingSize\<rparr>,
                    calls := calls w @ [CopyToHost mapping]\<rparr>)
         else Inl BackingOverrun)"

definition SynchronizeHostWithCycle :: "fence_wait \<Rightarrow> cycle_id option \<Rightarrow> world \<Rightarrow> fault + world" where
  "SynchronizeHostWithCycle Wait pCycle w =
     (let w' = (if pCycle \<noteq> cycle w then WaitOnFence Wait w else w)
      in SynchronizeHostWithCycle_loop (guest w') 0 w')"

text \<open>The copy loop of \<open>Buffer::SynchronizeGuest\<close>, from the host allocation to the guest.\<close>

fun SynchronizeGuest_loop :: "span list \<Rightarrow> nat \<Rightarrow> world \<Rightarrow> fault + world" where
  "SynchronizeGuest_loop [] host w = Inr w"
| "SynchronizeGuest_loop (mapping # mappings) host w =
     (let mappingSize = size_bytes mapping
      in if host + mappingSize \<le> size_buffer w
         then SynchronizeGuest_loop mappings (host + mappingSize)
                (w\<lparr>env := (env w)\<lparr>memory :=
                       memcpy (memory (env w)) (data mapping) (backing (env w)) host mappingSize\<rparr>,
                    calls := calls w @ [CopyToGuest mapping]\<rparr>)
         else Inl BackingOverrun)"

definition SynchronizeGuest :: "fence_wait \<Rightarrow> world \<Rightarrow> fault + world" where
  "SynchronizeGuest Wait w =
     (let w' = WaitOnFence Wait w
      in SynchronizeGuest_loop (guest w') 0 w')"

text \<open>The destructor of \<open>BufferGuestSync\<close>, the action a fence cycle runs on completion.\<close>

definition BufferGuestSync_destroy :: "fence_wait \<Rightarrow> world \<Rightarrow> fault + world" where
  "BufferGuestSync_destroy Wait w = SynchronizeGuest Wait w"

text \<open>
  Modelled from the spec: \<open>FenceCycle::Wait\<close> is defined outside \<open>buffer.cpp\<close>. The spec
  has the wait block until the GPU work of the cycle is complete and has every
  completion action attached to the cycle run once, after completion. \<open>FenceCycle_Wait\<close>
  is a wait that finds the work complete: it detaches the dependencies of the cycle and
  destroys them in the order of attachment, and returns the environment they leave and
  the calls they made. \<open>DestroyDependencies\<close> runs the destructors; its first argument
  is the wait a destructor makes. That wait is on the cycle being completed, which has
  nothing attached any more, and returns at once: it is \<open>Wait_complete\<close>. A destructor
  that ends in a fault ends the destruction.
\<close>

definition Wait_complete :: fence_wait where
  "Wait_complete c w = (env w, [])"

fun DestroyDependencies :: "fence_wait \<Rightarrow> FenceCycleDependency list \<Rightarrow> world \<Rightarrow> world" where
  "DestroyDependencies Wait [] w = w"
| "DestroyDependencies Wait (BufferGuestSync # dependencies) w =
     (case BufferGuestSync_destroy Wait w of
        Inl f \<Rightarrow> w
      | Inr w' \<Rightarrow> DestroyDependencies Wait dependencies w')"

definition FenceCycle_Wait :: fence_wait where
  "FenceCycle_Wait c w =
     (let w' = DestroyDependencies Wait_complete (attached (env w) c)
                 (w\<lparr>env := (env w)\<lparr>attached := (attached (env w))(c := [])\<rparr>, calls := []\<rparr>)
      in (env w', calls w'))"

text \<open>
  Modelled from the spec: \<open>FenceCycle::AttachObject\<close> is defined outside \<open>buffer.cpp\<close>.
  The spec has it register a completion action with the cycle; the model appends the
  dependency to the list of the cycle.
\<close>

definition AttachObject :: "cycle_id \<Rightarrow> FenceCycleDependency \<Rightarrow> environment \<Rightarrow> environment" where
  "AttachObject c dependency e = e\<lparr>attached := (attached e)(c := attached e c @ [dependency])\<rparr>"

text \<open>
  \<open>Buffer::SynchronizeGuestWithCycle\<close>. The call of \<open>AttachObject\<close> goes through
  \<open>pCycle\<close>, which must not be null.
\<close>

definition SynchronizeGuestWithCycle :: "fence_wait \<Rightarrow> cycle_id option \<Rightarrow> world \<Rightarrow> fault + world" where
  "SynchronizeGuestWithCycle Wait pCycle w =
     (let w' = (if pCycle \<noteq> cycle w then WaitOnFence Wait w else w)
      in case pCycle of
           None \<Rightarrow> Inl NullCycle
         | Some c \<Rightarrow>
             Inr (w'\<lparr>env := AttachObject c BufferGuestSync (env w'),
                      calls := calls w' @ [FenceAttach c BufferGuestSync],
                      cycle := Some c\<rparr>))"

text \<open>
  \<open>Buffer::Write\<close> copies \<open>data\<close> to \<open>mirror.data() + offset\<close>; the source compares
  \<open>offset\<close> with nothing. A copy that stays inside the span \<open>mirror\<close> goes through the
  mapping to the guest memory it aliases, one position after the other. A copy that
  leaves the span \<open>mirror\<close> is an access outside the span, which C++ leaves undefined:
  the model gives it the value \<open>MirrorOverrun\<close>, which is not a return of the call. The
  condition of \<open>Write\<close> below is the line between the two kinds of execution, the code
  has no branch there.
\<close>

fun Write_loop :: "span list \<Rightarrow> nat \<Rightarrow> u8 list \<Rightarrow> (nat \<Rightarrow> u8) \<Rightarrow> fault + (nat \<Rightarrow> u8)" where
  "Write_loop regions pos [] m = Inr m"
| "Write_loop regions pos (b # bs) m =
     (case mirror_address regions pos of
        None \<Rightarrow> Inl MirrorOverrun
      | Some a \<Rightarrow> Write_loop regions (Suc pos) bs (m(a := b)))"

definition Write :: "u8 list \<Rightarrow> nat \<Rightarrow> world \<Rightarrow> fault + world" where
  "Write bytes off w =
     (if off + length bytes \<le> snd (mirror w) then
        (case alignedMirror w of
           None \<Rightarrow> Inl MirrorOverrun
         | Some mapping \<Rightarrow>
             (case Write_loop mapping (fst (mirror w) + off) bytes (memory (env w)) of
                Inl f \<Rightarrow> Inl f
              | Inr m \<Rightarrow> Inr (w\<lparr>env := (env w)\<lparr>memory := m\<rparr>\<rparr>)))
      else Inl MirrorOverrun)"

text \<open>
  \<open>Buffer::GetView\<close>. The loop returns the first entry of \<open>views\<close> that is alive and
  carries the three values asked for; it leaves \<open>views\<close> as it is. \<open>fresh\<close> is the
  identity \<open>make_shared\<close> gives the new object.
\<close>

fun GetView_loop :: "(view_id \<Rightarrow> BufferView option) \<Rightarrow> view_id list \<Rightarrow> nat \<Rightarrow> nat \<Rightarrow> Format \<Rightarrow> view_id option" where
  "GetView_loop objects [] off rng fmt = None"
| "GetView_loop objects (viewWeak # rest) off rng fmt =
     (case objects viewWeak of
        Some view \<Rightarrow>
          if offset view = off \<and> range_v view = rng \<and> format view = fmt then Some viewWeak
          else GetView_loop objects rest off rng fmt
      | None \<Rightarrow> GetView_loop objects rest off rng fmt)"

definition GetView :: "view_id \<Rightarrow> nat \<Rightarrow> nat \<Rightarrow> Format \<Rightarrow> world \<Rightarrow> view_id \<times> world" where
  "GetView fresh off rng fmt w =
     (case GetView_loop (view_objects (env w)) (views w) off rng fmt of
        Some view \<Rightarrow> (view, w)
      | None \<Rightarrow>
          (fresh,
           w\<lparr>env := (env w)\<lparr>view_objects := (view_objects (env w))
                      (fresh := Some \<lparr>offset = off, range_v = rng, format = fmt\<rparr>)\<rparr>,
             views := views w @ [fresh]\<rparr>))"

text \<open>
  The constructor: the size, the host allocation (its bytes are those of the
  environment, whatever they are), the mirror, which is the mapping the service returns
  for the request, the first synchronisation.
\<close>

definition Buffer_construct :: "nat \<Rightarrow> fence_wait \<Rightarrow> environment \<Rightarrow> span list \<Rightarrow> fault + world" where
  "Buffer_construct PAGE_SIZE Wait e mappings =
     (let sz = BufferSize mappings
      in case SetupGuestMappings PAGE_SIZE mappings of
           Inl f \<Rightarrow> Inl f
         | Inr (request, m) \<Rightarrow>
             SynchronizeHost Wait
               \<lparr>size_buffer = sz, guest = mappings, mirror = m,
                alignedMirror = Some (mapped_spans PAGE_SIZE request),
                cycle = None, views = [], env = e,
                calls = [AllocateBuffer sz, MirrorRequest request]\<rparr>)"

text \<open>
  Modelled from the spec: the destructor calls \<open>SynchronizeGuest(true)\<close>, a
  \<open>SynchronizeGuest\<close> with a parameter, which \<open>buffer.cpp\<close> does not define (the one it
  defines takes none). The spec names the argument \<open>forced\<close> and has the forced call wait
  for any outstanding fence, although the Buffer is being torn down, and then copy the
  host allocation to the guest. That is what \<open>SynchronizeGuest()\<close> does, and the model
  has the call with the argument do the same for either value of it.
\<close>

definition SynchronizeGuest_forced :: "fence_wait \<Rightarrow> bool \<Rightarrow> world \<Rightarrow> fault + world" where
  "SynchronizeGuest_forced Wait forced w = SynchronizeGuest Wait w"

text \<open>
  The destructor. \<open>std::lock_guard\<close> locks the Buffer on entry and unlocks it on exit.
\<close>

definition Buffer_destroy :: "fence_wait \<Rightarrow> world \<Rightarrow> fault + world" where
  "Buffer_destroy Wait w =
     (case SynchronizeGuest_forced Wait True (w\<lparr>calls := calls w @ [MutexLock]\<rparr>) of
        Inl f \<Rightarrow> Inl f
      | Inr w' \<Rightarrow>
          (let w'' = (case alignedMirror w' of
                        None \<Rightarrow> w'
                      | Some mapping \<Rightarrow> w'\<lparr>calls := calls w' @ [Munmap mapping]\<rparr>)
           in Inr (w''\<lparr>calls := calls w'' @ [MutexUnlock]\<rparr>)))"

section \<open>BufferView: locking while the Buffer can be replaced\<close>

text \<open>
  \<open>BufferView::lock\<close> and \<open>BufferView::try_lock\<close> run while other threads replace
  \<open>buffer\<close>, the view's atomic shared pointer, and lock and unlock the mutexes of the
  Buffers. The model is an interleaving of atomic steps: every \<open>atomic_load\<close> and every
  mutex operation of the call is one step, and so is every step of the other threads.
  \<open>control\<close> is the place the call has reached, with the values of its locals
  \<open>backing\<close>, \<open>latestBacking\<close> and \<open>success\<close>; Buffers are numbers. The comparison
  that follows the second load, and the return it leads to, belong to the step of the
  load.
\<close>

datatype control =
  Lock_load
| Lock_lock nat
| Lock_check nat
| Lock_unlock nat nat
| Lock_return nat
| Try_load
| Try_lock nat
| Try_check nat bool
| Try_unlock nat nat
| Try_return nat bool

text \<open>
  The pointer \<open>buffer\<close> of the view, the mutexes the calling thread holds, the mutexes
  other threads hold, and the place of the call.
\<close>

record view_state =
  buffer :: nat
  held :: "nat list"
  busy :: "nat set"
  pc :: control

text \<open>
  The steps: of the call (\<open>Load\<close>, \<open>Lock\<close>, \<open>TryLock\<close> with its result, \<open>Unlock\<close>) and
  of the other threads (\<open>Replace\<close> stores a Buffer into \<open>buffer\<close>; \<open>Other_lock\<close> and
  \<open>Other_unlock\<close> take and give back a mutex).
\<close>

datatype event =
  Load
| Lock nat
| TryLock nat bool
| Unlock nat
| Replace nat
| Other_lock nat
| Other_unlock nat

fun returned :: "control \<Rightarrow> bool" where
  "returned (Lock_return b) = True"
| "returned (Try_return b ok) = True"
| "returned c = False"

text \<open>
  One step. A step that cannot be taken yields \<open>None\<close>: \<open>lock()\<close> on a mutex another
  thread holds blocks until that thread unlocks, \<open>try_lock()\<close> succeeds only on a free
  mutex and may fail on any, a mutex is given to one thread at a time, and the run of
  the call ends with its return.
\<close>

fun fire :: "event \<Rightarrow> view_state \<Rightarrow> view_state option" where
  "fire Load s =
     (case pc s of
        Lock_load \<Rightarrow> Some (s\<lparr>pc := Lock_lock (buffer s)\<rparr>)
      | Lock_check backing' \<Rightarrow>
          Some (s\<lparr>pc := (if backing' = buffer s then Lock_return backing'
                         else Lock_unlock backing' (buffer s))\<rparr>)
      | Try_load \<Rightarrow> Some (s\<lparr>pc := Try_lock (buffer s)\<rparr>)
      | Try_check backing' success \<Rightarrow>
          Some (s\<lparr>pc := (if backing' = buffer s then Try_return backing' success
                         else if success then Try_unlock backing' (buffer s)
                         else Try_lock (buffer s))\<rparr>)
      | _ \<Rightarrow> None)"
| "fire (Lock b) s =
     (if pc s = Lock_lock b \<and> b \<notin> busy s \<and> b \<notin> set (held s)
      then Some (s\<lparr>held := b # held s, pc := Lock_check b\<rparr>) else None)"
| "fire (TryLock b success) s =
     (if pc s = Try_lock b \<and> (success \<longrightarrow> b \<notin> busy s \<and> b \<notin> set (held s))
      then Some (s\<lparr>held := (if success then b # held s else held s),
                   pc := Try_check b success\<rparr>)
      else None)"
| "fire (Unlock b) s =
     (case pc s of
        Lock_unlock backing' latestBacking \<Rightarrow>
          if backing' = b then Some (s\<lparr>held := remove1 b (held s), pc := Lock_lock latestBacking\<rparr>)
          else None
      | Try_unlock backing' latestBacking \<Rightarrow>
          if backing' = b then Some (s\<lparr>held := remove1 b (held s), pc := Try_lock latestBacking\<rparr>)
          else None
      | _ \<Rightarrow> None)"
| "fire (Replace b) s = (if returned (pc s) then None else Some (s\<lparr>buffer := b\<rparr>))"
| "fire (Other_lock b) s =
     (if returned (pc s) \<or> b \<in> busy s \<or> b \<in> set (held s) then None
      else Some (s\<lparr>busy := insert b (busy s)\<rparr>))"
| "fire (Other_unlock b) s =
     (if returned (pc s) \<or> b \<notin> busy s then None
      else Some (s\<lparr>busy := busy s - {b}\<rparr>))"

text \<open>A schedule is a list of steps; \<open>exec\<close> runs it from a state.\<close>

fun exec :: "event list \<Rightarrow> view_state \<Rightarrow> view_state option" where
  "exec [] s = Some s"
| "exec (e # es) s = (case fire e s of None \<Rightarrow> None | Some s' \<Rightarrow> exec es s')"

section \<open>The specification's wording, as definitions\<close>

text \<open>
  The single-region mirror in the words of the specification: the start is aligned
  down, the end is aligned up, one mapping is requested over that range, and the logical
  mirror is the part of it that belongs to the region.
\<close>

definition spec_single_region :: "nat \<Rightarrow> span \<Rightarrow> mirror_request \<times> nat \<times> nat" where
  "spec_single_region PAGE_SIZE r =
     (let start = AlignDown (data r) PAGE_SIZE;
          finish = AlignUp (span_end r) PAGE_SIZE
      in (CreateMirror start (finish - start), data r - start, size_bytes r))"

text \<open>
  The multi-region mirror in the words of the specification: the start of the first
  region is aligned down, the end of the last region is aligned up, the regions between
  them are passed as they are, and the logical mirror starts at the first region's true
  start and is as long as all regions together.
\<close>

definition spec_multi_region :: "nat \<Rightarrow> span list \<Rightarrow> mirror_request \<times> nat \<times> nat" where
  "spec_multi_region PAGE_SIZE rs =
     (let start = AlignDown (data (hd rs)) PAGE_SIZE;
          finish = AlignUp (span_end (last rs)) PAGE_SIZE
      in (CreateMirrors
            (\<lparr>data = start, size_bytes = span_end (hd rs) - start\<rparr>
               # butlast (tl rs)
               @ [\<lparr>data = data (last rs), size_bytes = finish - data (last rs)\<rparr>]),
          data (hd rs) - start,
          sum_list (map size_bytes rs)))"

text \<open>
  The multi-region mirror the code builds for lengths that stay within 64 bits, in
  closed form: it differs from the specification's in the last span, whose length (not
  whose end) is aligned up.
\<close>

definition built_multi_region :: "nat \<Rightarrow> span list \<Rightarrow> mirror_request \<times> nat \<times> nat" where
  "built_multi_region PAGE_SIZE rs =
     (let start = AlignDown (data (hd rs)) PAGE_SIZE
      in (CreateMirrors
            (\<lparr>data = start, size_bytes = span_end (hd rs) - start\<rparr>
               # butlast (tl rs)
               @ [\<lparr>data = data (last rs),
                   size_bytes = AlignUp (size_bytes (last rs)) PAGE_SIZE\<rparr>]),
          data (hd rs) - start,
          sum_list (map size_bytes rs)))"

text \<open>
  The region whose interval of cumulative lengths holds a flat offset: region \<open>k\<close>
  covers the offsets from the sum of the lengths before it up to, not including, that
  sum plus its own length.
\<close>

fun region_of :: "nat list \<Rightarrow> nat \<Rightarrow> nat" where
  "region_of [] pos = 0"
| "region_of (l # ls) pos = (if pos < l then 0 else Suc (region_of ls (pos - l)))"

text \<open>
  The guest address of a flat offset when the regions are laid end to end: the region
  that holds the offset, at the offset less the lengths of the regions before it.
\<close>

definition flat_address :: "span list \<Rightarrow> nat \<Rightarrow> nat" where
  "flat_address rs pos =
     (let k = region_of (map size_bytes rs) pos
      in data (rs ! k) + (pos - sum_list (take k (map size_bytes rs))))"

text \<open>Bytes written one after the other at consecutive flat offsets of the regions.\<close>

fun region_write :: "span list \<Rightarrow> nat \<Rightarrow> u8 list \<Rightarrow> (nat \<Rightarrow> u8) \<Rightarrow> (nat \<Rightarrow> u8)" where
  "region_write rs pos [] m = m"
| "region_write rs pos (b # bs) m = region_write rs (Suc pos) bs (m(flat_address rs pos := b))"

text \<open>An address lies in one of the regions.\<close>

definition in_regions :: "span list \<Rightarrow> nat \<Rightarrow> bool" where
  "in_regions rs a = list_ex (\<lambda>r. data r \<le> a \<and> a < span_end r) rs"

text \<open>
  The lengths of the regions stay within 64 bits: they add up below \<open>2 ^ 64\<close>, and so
  does the length of the last of several regions when it is aligned up.
\<close>

definition regions_fit :: "nat \<Rightarrow> span list \<Rightarrow> bool" where
  "regions_fit PAGE_SIZE rs \<longleftrightarrow>
     sum_list (map size_bytes rs) < 2 ^ 64 \<and>
     (length rs = 1 \<or> AlignUp (size_bytes (last rs)) PAGE_SIZE < 2 ^ 64)"

text \<open>
  The regions are page-sized and page-aligned where one follows the other, as the
  specification assumes of the guest memory manager: the first of several regions ends
  on a page boundary, the last one starts on a page boundary, and every region between
  them starts and ends on one.
\<close>

definition page_multiple :: "nat \<Rightarrow> span \<Rightarrow> bool" where
  "page_multiple PAGE_SIZE r \<longleftrightarrow> PAGE_SIZE dvd data r \<and> PAGE_SIZE dvd size_bytes r"

definition inner_aligned :: "nat \<Rightarrow> span list \<Rightarrow> bool" where
  "inner_aligned PAGE_SIZE rs \<longleftrightarrow>
     length rs = 1 \<or>
     (PAGE_SIZE dvd span_end (hd rs) \<and>
      list_all (page_multiple PAGE_SIZE) (butlast (tl rs)) \<and>
      PAGE_SIZE dvd data (last rs))"

text \<open>
  What the constructor establishes and no function of the Buffer changes: there is a
  region, the lengths stay within 64 bits, \<open>size\<close> is \<open>BufferSize\<close> of the regions, the
  mirror is the one \<open>SetupGuestMappings\<close> builds over them and \<open>alignedMirror\<close> is the
  mapping of its request.
\<close>

definition Buffer_invariant :: "nat \<Rightarrow> world \<Rightarrow> bool" where
  "Buffer_invariant PAGE_SIZE w \<longleftrightarrow>
     0 < PAGE_SIZE \<and> guest w \<noteq> [] \<and> regions_fit PAGE_SIZE (guest w) \<and>
     size_buffer w = BufferSize (guest w) \<and>
     (case SetupGuestMappings PAGE_SIZE (guest w) of
        Inl f \<Rightarrow> False
      | Inr (request, m) \<Rightarrow>
          mirror w = m \<and> alignedMirror w = Some (mapped_spans PAGE_SIZE request))"

text \<open>
  The host allocation after a copy of every region's bytes in region order, starting at
  position \<open>host\<close>: position \<open>host + p\<close> holds the guest byte of flat offset \<open>p\<close>, the
  other positions keep their bytes.
\<close>

definition host_image :: "(nat \<Rightarrow> u8) \<Rightarrow> span list \<Rightarrow> nat \<Rightarrow> (nat \<Rightarrow> u8) \<Rightarrow> (nat \<Rightarrow> u8)" where
  "host_image m rs host b =
     (\<lambda>i. if host \<le> i \<and> i < host + sum_list (map size_bytes rs)
          then m (flat_address rs (i - host)) else b i)"

text \<open>
  The world after the copy of every region into the host allocation, in region order
  from position 0.
\<close>

definition host_copied :: "world \<Rightarrow> world" where
  "host_copied w =
     w\<lparr>env := (env w)\<lparr>backing := host_image (memory (env w)) (guest w) 0 (backing (env w))\<rparr>,
       calls := calls w @ map CopyToHost (guest w)\<rparr>"

text \<open>
  Guest memory after the loop of \<open>SynchronizeGuest\<close>: region after region receives its
  stretch of the host allocation.
\<close>

fun guest_image :: "(nat \<Rightarrow> u8) \<Rightarrow> span list \<Rightarrow> nat \<Rightarrow> (nat \<Rightarrow> u8) \<Rightarrow> (nat \<Rightarrow> u8)" where
  "guest_image b [] host m = m"
| "guest_image b (r # rs) host m =
     guest_image b rs (host + size_bytes r) (memcpy m (data r) b host (size_bytes r))"

text \<open>Two regions share an address; no two regions of a list do.\<close>

definition overlap :: "span \<Rightarrow> span \<Rightarrow> bool" where
  "overlap r r' \<longleftrightarrow> data r < span_end r' \<and> data r' < span_end r"

fun disjoint_regions :: "span list \<Rightarrow> bool" where
  "disjoint_regions [] = True"
| "disjoint_regions (r # rs) = (list_all (\<lambda>r'. \<not> overlap r r') rs \<and> disjoint_regions rs)"

text \<open>The world after the copy of the host allocation back into every region.\<close>

definition guest_copied :: "world \<Rightarrow> world" where
  "guest_copied w =
     w\<lparr>env := (env w)\<lparr>memory :=
            guest_image (backing (env w)) (guest w) 0 (memory (env w))\<rparr>,
       calls := calls w @ map CopyToGuest (guest w)\<rparr>"

text \<open>
  Among the entries of the cache that are alive no two carry the same offset, range and
  format.
\<close>

definition one_view_per_triple :: "world \<Rightarrow> bool" where
  "one_view_per_triple w \<longleftrightarrow>
     distinct (map (view_objects (env w))
                (filter (\<lambda>v. view_objects (env w) v \<noteq> None) (views w)))"

text \<open>The last owner of a view lets go of it: the object is gone, weak pointers to it expire.\<close>

definition release :: "view_id \<Rightarrow> world \<Rightarrow> world" where
  "release v w = w\<lparr>env := (env w)\<lparr>view_objects := (view_objects (env w))(v := None)\<rparr>\<rparr>"

text \<open>
  The operations a caller can run on a Buffer one after the other; a run stops at the
  first fault.
\<close>

datatype operation =
  Op_SynchronizeHost
| Op_SynchronizeHostWithCycle "cycle_id option"
| Op_SynchronizeGuest
| Op_SynchronizeGuestWithCycle "cycle_id option"
| Op_Write "u8 list" nat
| Op_GetView view_id nat nat Format

fun perform :: "fence_wait \<Rightarrow> operation \<Rightarrow> world \<Rightarrow> fault + world" where
  "perform Wait Op_SynchronizeHost w = SynchronizeHost Wait w"
| "perform Wait (Op_SynchronizeHostWithCycle pCycle) w = SynchronizeHostWithCycle Wait pCycle w"
| "perform Wait Op_SynchronizeGuest w = SynchronizeGuest Wait w"
| "perform Wait (Op_SynchronizeGuestWithCycle pCycle) w = SynchronizeGuestWithCycle Wait pCycle w"
| "perform Wait (Op_Write bytes off) w = Write bytes off w"
| "perform Wait (Op_GetView fresh off rng fmt) w = Inr (snd (GetView fresh off rng fmt w))"

fun run :: "fence_wait \<Rightarrow> operation list \<Rightarrow> world \<Rightarrow> fault + world" where
  "run Wait [] w = Inr w"
| "run Wait (operation # operations) w =
     (case perform Wait operation w of
        Inl f \<Rightarrow> Inl f
      | Inr w' \<Rightarrow> run Wait operations w')"

text \<open>
  Every dependency a fence cycle still holds for the Buffer is held by the pending
  cycle.
\<close>

definition obligations_on_pending :: "world \<Rightarrow> bool" where
  "obligations_on_pending w \<longleftrightarrow> (\<forall>c. attached (env w) c \<noteq> [] \<longrightarrow> cycle w = Some c)"

text \<open>
  The specification's contract of a fence wait: when the wait on a cycle returns, the
  completion actions of the cycle have run, so none is left attached to it, and the
  wait attaches nothing anywhere.
\<close>

definition fence_resolves :: "fence_wait \<Rightarrow> bool" where
  "fence_resolves Wait \<longleftrightarrow>
     (\<forall>c w. attached (fst (Wait c w)) c = [] \<and>
            (\<forall>c'. attached (fst (Wait c w)) c' \<noteq> [] \<longrightarrow> attached (env w) c' \<noteq> []))"

text \<open>
  What the calling thread holds at each place of \<open>lock\<close> and \<open>try_lock\<close>: nothing
  before an acquisition, the one mutex of \<open>backing\<close> after it, and at the return the
  pointer \<open>buffer\<close> is \<open>backing\<close>.
\<close>

definition lock_invariant :: "view_state \<Rightarrow> bool" where
  "lock_invariant s =
     (case pc s of
        Lock_load \<Rightarrow> held s = []
      | Lock_lock b \<Rightarrow> held s = []
      | Lock_check b \<Rightarrow> held s = [b] \<and> b \<notin> busy s
      | Lock_unlock b l \<Rightarrow> held s = [b] \<and> b \<notin> busy s
      | Lock_return b \<Rightarrow> held s = [b] \<and> b \<notin> busy s \<and> buffer s = b
      | Try_load \<Rightarrow> held s = []
      | Try_lock b \<Rightarrow> held s = []
      | Try_check b ok \<Rightarrow> held s = (if ok then [b] else []) \<and> (ok \<longrightarrow> b \<notin> busy s)
      | Try_unlock b l \<Rightarrow> held s = [b] \<and> b \<notin> busy s
      | Try_return b ok \<Rightarrow>
          held s = (if ok then [b] else []) \<and> (ok \<longrightarrow> b \<notin> busy s) \<and> buffer s = b)"

text \<open>The steps of a schedule that follow the last acquisition of a mutex by the call.\<close>

fun acquires :: "event \<Rightarrow> bool" where
  "acquires (Lock b) = True"
| "acquires (TryLock b success) = success"
| "acquires e = False"

definition since_acquire :: "event list \<Rightarrow> event list" where
  "since_acquire evs = rev (takeWhile (\<lambda>e. \<not> acquires e) (rev evs))"

section \<open>Example inputs\<close>

text \<open>
  A fence whose completion changes nothing, an environment of zero bytes with no view
  and no dependency, two regions of three and two bytes, and the Buffer over them for a
  page of 4096 bytes.
\<close>

definition idle_fence :: fence_wait where
  "idle_fence c w = (env w, [])"

definition example_env :: environment where
  "example_env = \<lparr>memory = (\<lambda>a. 0), backing = (\<lambda>i. 0), attached = (\<lambda>c. []),
                   view_objects = (\<lambda>v. None)\<rparr>"

definition example_regions :: "span list" where
  "example_regions = [\<lparr>data = 5000, size_bytes = 3\<rparr>, \<lparr>data = 9000, size_bytes = 2\<rparr>]"

definition example_world :: world where
  "example_world =
     \<lparr>size_buffer = 5, guest = example_regions, mirror = (904, 5),
      alignedMirror = Some
        [\<lparr>data = 4096, size_bytes = 4096\<rparr>, \<lparr>data = 8192, size_bytes = 8192\<rparr>],
      cycle = None, views = [], env = example_env, calls = []\<rparr>"

text \<open>The example Buffer with the calls its constructor makes.\<close>

definition example_built :: world where
  "example_built =
     example_world\<lparr>calls :=
       [AllocateBuffer 5,
        MirrorRequest (CreateMirrors
          [\<lparr>data = 4096, size_bytes = 907\<rparr>, \<lparr>data = 9000, size_bytes = 4096\<rparr>]),
        CopyToHost \<lparr>data = 5000, size_bytes = 3\<rparr>, CopyToHost \<lparr>data = 9000, size_bytes = 2\<rparr>]\<rparr>"

text \<open>
  Three regions that are page-aligned where one follows the other, and the Buffer over
  them for a page of 4096 bytes.
\<close>

definition example_aligned :: "span list" where
  "example_aligned =
     [\<lparr>data = 5000, size_bytes = 3192\<rparr>, \<lparr>data = 16384, size_bytes = 4096\<rparr>,
      \<lparr>data = 40960, size_bytes = 10\<rparr>]"


text \<open>
  A fence whose completion has the GPU write the first byte of the host allocation, and
  the example Buffer with cycle 1 pending.
\<close>

definition gpu_fence :: fence_wait where
  "gpu_fence c w = ((env w)\<lparr>backing := (backing (env w))(0 := 9)\<rparr>, [])"

definition example_pending :: world where
  "example_pending = example_world\<lparr>cycle := Some 1\<rparr>"

text \<open>
  The example Buffer with a cache that holds one expired reference, and with a cache
  that holds an expired reference and a live view; two regions that overlap.
\<close>

definition example_cache :: world where
  "example_cache = example_world\<lparr>views := [1]\<rparr>"

definition example_viewed :: world where
  "example_viewed =
     example_world\<lparr>views := [1, 2],
       env := example_env\<lparr>view_objects :=
         (\<lambda>v. None)(2 := Some \<lparr>offset = 0, range_v = 4, format = 0\<rparr>)\<rparr>\<rparr>"

definition example_overlapping :: "span list" where
  "example_overlapping = [\<lparr>data = 5000, size_bytes = 8\<rparr>, \<lparr>data = 5004, size_bytes = 8\<rparr>]"

text \<open>
  The example Buffer with a host allocation of bytes 7, and a Buffer over the two
  overlapping regions, with cycle 1 pending, whose host allocation holds eight bytes 1
  followed by bytes 2.
\<close>

definition example_host :: world where
  "example_host = example_world\<lparr>env := example_env\<lparr>backing := (\<lambda>i. 7)\<rparr>\<rparr>"

definition example_overlapping_world :: world where
  "example_overlapping_world =
     \<lparr>size_buffer = 16, guest = example_overlapping, mirror = (904, 16),
      alignedMirror = Some
        [\<lparr>data = 4096, size_bytes = 4096\<rparr>, \<lparr>data = 4096, size_bytes = 8192\<rparr>],
      cycle = Some 1, views = [],
      env = example_env\<lparr>backing := (\<lambda>i. if i < 8 then 1 else 2)\<rparr>, calls = []\<rparr>"

text \<open>A view of Buffer 1 at the start of \<open>lock\<close> and at the start of \<open>try_lock\<close>.\<close>

definition example_view :: view_state where
  "example_view = \<lparr>buffer = 1, held = [], busy = {}, pc = Lock_load\<rparr>"

definition example_try :: view_state where
  "example_try = \<lparr>buffer = 1, held = [], busy = {}, pc = Try_load\<rparr>"

section \<open>Alignment and the mirror request\<close>

lemma span_eta: "\<lparr>data = data x, size_bytes = size_bytes x\<rparr> = (x::span)"
  by (cases x) simp

lemma AlignDown_bounds:
  assumes "0 < m"
  shows "m dvd AlignDown v m \<and> AlignDown v m \<le> v \<and> v - AlignDown v m < m"
proof -
  have "v - v mod m = (v div m) * m"
    by (simp add: minus_mod_eq_div_mult)
  then have "m dvd v - v mod m" by simp
  moreover have "v - (v - v mod m) = v mod m" by simp
  ultimately show ?thesis
    using assms unfolding AlignDown_def by simp
qed

lemma AlignUp_bounds:
  assumes "0 < m"
  shows "m dvd AlignUp v m \<and> v \<le> AlignUp v m \<and> AlignUp v m - v < m"
proof -
  define w where "w = v + (m - 1)"
  have d: "m dvd AlignDown w m" and le: "AlignDown w m \<le> w" and lt: "w - AlignDown w m < m"
    using AlignDown_bounds [OF assms, of w] by auto
  from lt assms have "v \<le> AlignDown w m" unfolding w_def by linarith
  moreover from le assms have "AlignDown w m - v < m" unfolding w_def by linarith
  ultimately show ?thesis using d unfolding AlignUp_def w_def by blast
qed

lemma AlignUp_aligned_start:
  assumes "0 < m" and "m dvd a"
  shows "AlignUp (a + n) m - a = AlignUp n m"
proof -
  from assms obtain k where a: "a = m * k" by (auto simp: dvd_def)
  have "(m * k + n + (m - 1)) mod m = (n + (m - 1)) mod m"
    by (simp add: add.assoc)
  moreover have "(n + (m - 1)) mod m \<le> n + (m - 1)" by simp
  ultimately show ?thesis
    by (simp add: AlignUp_def AlignDown_def a add.assoc)
qed

lemma inner_mappings_eq:
  "t + sum_list (map size_bytes xs) < 2 ^ 64 \<Longrightarrow>
   inner_mappings xs (acc, t) = (acc @ xs, t + sum_list (map size_bytes xs))"
proof (induction xs arbitrary: acc t)
  case Nil
  then show ?case by simp
next
  case (Cons x xs)
  from Cons.prems have lt: "t + size_bytes x < 2 ^ 64" by simp
  from Cons.prems have "(t + size_bytes x) + sum_list (map size_bytes xs) < 2 ^ 64"
    by (simp add: add.assoc)
  from Cons.IH [OF this, of "acc @ [x]"] lt show ?case
    by (simp add: add.assoc Let_def span_eta)
qed

lemma sum_front_inner_back:
  assumes "2 \<le> length rs"
  shows "sum_list (map size_bytes rs) =
         size_bytes (hd rs) + sum_list (map size_bytes (butlast (tl rs))) + size_bytes (last rs)"
proof -
  from assms obtain x ys where rs: "rs = x # ys" and ys: "ys \<noteq> []"
    by (cases rs) force+
  from ys have "map size_bytes ys = map size_bytes (butlast ys) @ [size_bytes (last ys)]"
    by (metis append_butlast_last_id list.simps(8,9) map_append)
  then have "sum_list (map size_bytes ys) =
      sum_list (map size_bytes (butlast ys)) + size_bytes (last ys)"
    by simp
  with rs ys show ?thesis by simp
qed

lemma SetupGuestMappings_multi:
  assumes len: "2 \<le> length rs" and fit: "sum_list (map size_bytes rs) < 2 ^ 64"
    and lastfit: "AlignUp (size_bytes (last rs)) PAGE_SIZE < 2 ^ 64"
  shows "SetupGuestMappings PAGE_SIZE rs = Inr (built_multi_region PAGE_SIZE rs)"
proof -
  have split: "sum_list (map size_bytes rs) =
         size_bytes (hd rs) + sum_list (map size_bytes (butlast (tl rs))) + size_bytes (last rs)"
    by (rule sum_front_inner_back [OF len])
  with fit have inner: "size_bytes (hd rs) + sum_list (map size_bytes (butlast (tl rs))) < 2 ^ 64"
    by linarith
  from len have ne: "rs \<noteq> []" "length rs \<noteq> 1" by auto
  show ?thesis
    using ne fit split lastfit
    by (simp add: SetupGuestMappings_def built_multi_region_def Let_def
        inner_mappings_eq [OF inner] span_end_def)
qed

text \<open>
  The length of the last span is a \<open>size_t\<close>: a last region of \<open>2 ^ 64 - 4095\<close> bytes
  is given a span of no byte.
\<close>

lemma SetupGuestMappings_last_length_wraps:
  "SetupGuestMappings 4096
     [\<lparr>data = 8192, size_bytes = 0\<rparr>, \<lparr>data = 1, size_bytes = 2 ^ 64 - 4095\<rparr>] =
   Inr (CreateMirrors [\<lparr>data = 8192, size_bytes = 0\<rparr>, \<lparr>data = 1, size_bytes = 0\<rparr>],
        0, 2 ^ 64 - 4095)"
  by (simp add: SetupGuestMappings_def AlignDown_def AlignUp_def Let_def)

text \<open>
  C1, as amended. With one region the request and the logical mirror are those of the
  specification. With two or more regions, whose lengths add up below \<open>2 ^ 64\<close> and
  whose last length aligned up is below \<open>2 ^ 64\<close>, the first span starts at the first
  region's start aligned down, the regions between the first and the last are passed as
  they are, the last span keeps its start and has its length aligned up, and the logical
  mirror begins at the first region's true start and has the regions' total length;
  this is the specification's mirror whenever the last region starts on a page
  boundary.
\<close>

theorem SetupGuestMappings_builds_mirror:
  assumes "0 < PAGE_SIZE"
  shows "SetupGuestMappings PAGE_SIZE [r] = Inr (spec_single_region PAGE_SIZE r) \<and>
         (2 \<le> length rs \<and> sum_list (map size_bytes rs) < 2 ^ 64 \<and>
          AlignUp (size_bytes (last rs)) PAGE_SIZE < 2 ^ 64 \<longrightarrow>
            SetupGuestMappings PAGE_SIZE rs = Inr (built_multi_region PAGE_SIZE rs) \<and>
            (PAGE_SIZE dvd data (last rs) \<longrightarrow>
               built_multi_region PAGE_SIZE rs = spec_multi_region PAGE_SIZE rs))"
proof (intro conjI impI)
  show "SetupGuestMappings PAGE_SIZE [r] = Inr (spec_single_region PAGE_SIZE r)"
    by (simp add: SetupGuestMappings_def spec_single_region_def Let_def span_end_def)
next
  assume "2 \<le> length rs \<and> sum_list (map size_bytes rs) < 2 ^ 64 \<and>
          AlignUp (size_bytes (last rs)) PAGE_SIZE < 2 ^ 64"
  then show "SetupGuestMappings PAGE_SIZE rs = Inr (built_multi_region PAGE_SIZE rs)"
    by (simp add: SetupGuestMappings_multi)
next
  assume "PAGE_SIZE dvd data (last rs)"
  from AlignUp_aligned_start [OF assms this, of "size_bytes (last rs)"]
  show "built_multi_region PAGE_SIZE rs = spec_multi_region PAGE_SIZE rs"
    by (simp add: built_multi_region_def spec_multi_region_def Let_def span_end_def)
qed

text \<open>
  An instance: a page of 4096 bytes, one region at 5000, and three regions of which the
  last starts on a page boundary.
\<close>

theorem SetupGuestMappings_builds_mirror_witness:
  "(0::nat) < 4096 \<and>
   SetupGuestMappings 4096 [\<lparr>data = 5000, size_bytes = 100\<rparr>] =
     Inr (CreateMirror 4096 4096, 904, 100) \<and>
   SetupGuestMappings 4096
     [\<lparr>data = 5000, size_bytes = 3192\<rparr>, \<lparr>data = 16384, size_bytes = 4096\<rparr>,
      \<lparr>data = 40960, size_bytes = 10\<rparr>] =
     Inr (CreateMirrors
       [\<lparr>data = 4096, size_bytes = 4096\<rparr>, \<lparr>data = 16384, size_bytes = 4096\<rparr>,
        \<lparr>data = 40960, size_bytes = 4096\<rparr>], 904, 7298)"
  using SetupGuestMappings_builds_mirror [of 4096 "\<lparr>data = 5000, size_bytes = 100\<rparr>"
      "[\<lparr>data = 5000, size_bytes = 3192\<rparr>, \<lparr>data = 16384, size_bytes = 4096\<rparr>,
        \<lparr>data = 40960, size_bytes = 10\<rparr>]"]
  by (simp add: spec_single_region_def spec_multi_region_def built_multi_region_def
      AlignDown_def AlignUp_def Let_def span_end_def)

text \<open>
  C1 as the specification states it fails where the last of several regions does not
  start on a page boundary: for the regions at 4096 (4096 bytes) and 22528 (256 bytes)
  the last span requested is 4096 bytes long and ends at 26624, which is no page
  boundary; the specification's last span ends at 24576.
\<close>

theorem SetupGuestMappings_last_end_counterexample:
  "SetupGuestMappings 4096
     [\<lparr>data = 4096, size_bytes = 4096\<rparr>, \<lparr>data = 22528, size_bytes = 256\<rparr>] =
   Inr (CreateMirrors
          [\<lparr>data = 4096, size_bytes = 4096\<rparr>, \<lparr>data = 22528, size_bytes = 4096\<rparr>],
        0, 4352) \<and>
   spec_multi_region 4096
     [\<lparr>data = 4096, size_bytes = 4096\<rparr>, \<lparr>data = 22528, size_bytes = 256\<rparr>] =
   (CreateMirrors
      [\<lparr>data = 4096, size_bytes = 4096\<rparr>, \<lparr>data = 22528, size_bytes = 2048\<rparr>],
    0, 4352) \<and>
   \<not> (4096::nat) dvd 22528 + 4096"
  by (simp add: SetupGuestMappings_def spec_multi_region_def AlignDown_def AlignUp_def
      Let_def span_end_def)

section \<open>Flat offsets, the mirror and \<open>Write\<close>\<close>

lemma region_of_interval:
  "pos < sum_list ls \<Longrightarrow>
   region_of ls pos < length ls \<and>
   sum_list (take (region_of ls pos) ls) \<le> pos \<and>
   pos < sum_list (take (Suc (region_of ls pos)) ls)"
proof (induction ls arbitrary: pos)
  case Nil
  then show ?case by simp
next
  case (Cons l ls)
  show ?case
  proof (cases "pos < l")
    case True
    then show ?thesis by simp
  next
    case False
    with Cons.prems have "pos - l < sum_list ls" by simp
    from Cons.IH [OF this] False show ?thesis by auto
  qed
qed

lemma mirror_address_region_of:
  "pos < sum_list (map size_bytes rs) \<Longrightarrow>
   mirror_address rs pos =
     Some (data (rs ! region_of (map size_bytes rs) pos)
           + (pos - sum_list (take (region_of (map size_bytes rs) pos) (map size_bytes rs))))"
proof (induction rs arbitrary: pos)
  case Nil
  then show ?case by simp
next
  case (Cons r rs)
  show ?case
  proof (cases "pos < size_bytes r")
    case True
    then show ?thesis by simp
  next
    case False
    with Cons.prems have "pos - size_bytes r < sum_list (map size_bytes rs)" by simp
    from Cons.IH [OF this] False show ?thesis by simp
  qed
qed

lemma mirror_address_widen_last:
  assumes "data r' = data r" and "size_bytes r \<le> size_bytes r'"
  shows "pos < sum_list (map size_bytes (xs @ [r])) \<Longrightarrow>
         mirror_address (xs @ [r']) pos = mirror_address (xs @ [r]) pos"
proof (induction xs arbitrary: pos)
  case Nil
  with assms show ?case by simp
next
  case (Cons x xs)
  show ?case
  proof (cases "pos < size_bytes x")
    case True
    then show ?thesis by simp
  next
    case False
    with Cons.prems have "pos - size_bytes x < sum_list (map size_bytes (xs @ [r]))" by simp
    from Cons.IH [OF this] False show ?thesis by simp
  qed
qed

lemma mirror_single_resolves:
  assumes "0 < PAGE_SIZE" and "pos < size_bytes r"
  shows "mirror_address (requested_spans (fst (spec_single_region PAGE_SIZE r)))
           (fst (snd (spec_single_region PAGE_SIZE r)) + pos) = Some (data r + pos)"
proof -
  let ?a = "AlignDown (data r) PAGE_SIZE"
  let ?b = "AlignUp (span_end r) PAGE_SIZE"
  have a: "?a \<le> data r" using AlignDown_bounds [OF assms(1)] by blast
  have b: "span_end r \<le> ?b" using AlignUp_bounds [OF assms(1)] by blast
  from a b assms(2) have "data r - ?a + pos < ?b - ?a"
    by (simp add: span_end_def)
  with a show ?thesis
    by (simp add: spec_single_region_def Let_def)
qed

lemma mirror_multi_resolves:
  assumes ps: "0 < PAGE_SIZE" and len: "2 \<le> length rs"
    and pos: "pos < sum_list (map size_bytes rs)"
  shows "mirror_address (requested_spans (fst (built_multi_region PAGE_SIZE rs)))
           (fst (snd (built_multi_region PAGE_SIZE rs)) + pos) = mirror_address rs pos"
proof -
  from len obtain f ys where rs: "rs = f # ys" and ys: "ys \<noteq> []"
    by (cases rs) force+
  define l where "l = last ys"
  define inner where "inner = butlast ys"
  from ys have ys_eq: "ys = inner @ [l]" by (simp add: l_def inner_def)
  let ?a = "AlignDown (data f) PAGE_SIZE"
  let ?l' = "\<lparr>data = data l, size_bytes = AlignUp (size_bytes l) PAGE_SIZE\<rparr>"
  have a: "?a \<le> data f" using AlignDown_bounds [OF ps] by blast
  have up: "size_bytes l \<le> AlignUp (size_bytes l) PAGE_SIZE"
    using AlignUp_bounds [OF ps] by blast
  have built: "requested_spans (fst (built_multi_region PAGE_SIZE rs)) =
      \<lparr>data = ?a, size_bytes = span_end f - ?a\<rparr> # inner @ [?l']"
    and off: "fst (snd (built_multi_region PAGE_SIZE rs)) = data f - ?a"
    using ys by (simp_all add: built_multi_region_def Let_def rs l_def inner_def)
  show ?thesis
  proof (cases "pos < size_bytes f")
    case True
    with a have "data f - ?a + pos < span_end f - ?a" by (simp add: span_end_def)
    with a True show ?thesis unfolding built off by (simp add: rs)
  next
    case False
    with a have nlt: "\<not> data f - ?a + pos < span_end f - ?a" by (simp add: span_end_def)
    from a False have sub: "data f - ?a + pos - (span_end f - ?a) = pos - size_bytes f"
      by (simp add: span_end_def)
    from pos False have "pos - size_bytes f < sum_list (map size_bytes (inner @ [l]))"
      by (simp add: rs ys_eq)
    then have "mirror_address (inner @ [?l']) (pos - size_bytes f) =
               mirror_address (inner @ [l]) (pos - size_bytes f)"
      using up by (intro mirror_address_widen_last) simp_all
    with nlt sub False show ?thesis unfolding built off by (simp add: rs ys_eq)
  qed
qed

text \<open>
  A span that starts and ends on page boundaries is mapped as it is; every span is
  mapped with at least its own bytes.
\<close>

lemma AlignDown_aligned: "m dvd v \<Longrightarrow> AlignDown v m = v"
  by (simp add: AlignDown_def)

lemma AlignUp_aligned:
  assumes "0 < m" and "m dvd v"
  shows "AlignUp v m = v"
proof -
  from AlignUp_aligned_start [OF assms, of 0] assms(1)
  have "AlignUp v m - v = 0" by (simp add: AlignUp_def AlignDown_def)
  moreover have "v \<le> AlignUp v m" using AlignUp_bounds [OF assms(1)] by blast
  ultimately show ?thesis by simp
qed

lemma page_span_aligned:
  assumes "0 < PAGE_SIZE" and "PAGE_SIZE dvd data r" and "PAGE_SIZE dvd size_bytes r"
  shows "page_span PAGE_SIZE r = r"
proof -
  from assms have "PAGE_SIZE dvd span_end r" by (simp add: span_end_def)
  with assms show ?thesis
    by (simp add: page_span_def AlignDown_aligned AlignUp_aligned span_end_def span_eta)
qed

lemma page_span_size:
  assumes "0 < PAGE_SIZE"
  shows "size_bytes r \<le> size_bytes (page_span PAGE_SIZE r)"
proof -
  have "AlignDown (data r) PAGE_SIZE \<le> data r" using AlignDown_bounds [OF assms] by blast
  moreover have "span_end r \<le> AlignUp (span_end r) PAGE_SIZE"
    using AlignUp_bounds [OF assms] by blast
  ultimately show ?thesis by (auto simp: page_span_def span_end_def)
qed

lemma mapped_spans_size:
  assumes "0 < PAGE_SIZE"
  shows "sum_list (map size_bytes xs) \<le> sum_list (map size_bytes (map (page_span PAGE_SIZE) xs))"
proof (induction xs)
  case Nil
  then show ?case by simp
next
  case (Cons x xs)
  with page_span_size [OF assms, of x] show ?case by simp
qed

lemma mapped_spans_aligned:
  assumes "0 < PAGE_SIZE" and "list_all (page_multiple PAGE_SIZE) xs"
  shows "map (page_span PAGE_SIZE) xs = xs"
  using assms(2)
proof (induction xs)
  case Nil
  then show ?case by simp
next
  case (Cons x xs)
  then show ?case by (simp add: page_multiple_def page_span_aligned [OF assms(1)])
qed

lemma single_region_mapping:
  assumes "0 < PAGE_SIZE"
  shows "mapped_spans PAGE_SIZE (fst (spec_single_region PAGE_SIZE r)) =
         requested_spans (fst (spec_single_region PAGE_SIZE r))"
proof -
  let ?a = "AlignDown (data r) PAGE_SIZE"
  let ?b = "AlignUp (span_end r) PAGE_SIZE"
  have a: "PAGE_SIZE dvd ?a" "?a \<le> data r" using AlignDown_bounds [OF assms] by blast+
  have b: "PAGE_SIZE dvd ?b" "span_end r \<le> ?b" using AlignUp_bounds [OF assms] by blast+
  from a b have le: "?a \<le> ?b" by (simp add: span_end_def)
  with a b have "PAGE_SIZE dvd ?b - ?a" by (simp add: dvd_diff_nat)
  with a have "page_multiple PAGE_SIZE \<lparr>data = ?a, size_bytes = ?b - ?a\<rparr>"
    by (simp add: page_multiple_def)
  then show ?thesis
    using mapped_spans_aligned [OF assms, of "[\<lparr>data = ?a, size_bytes = ?b - ?a\<rparr>]"]
    by (simp add: mapped_spans_def spec_single_region_def Let_def)
qed

lemma multi_region_mapping:
  assumes ps: "0 < PAGE_SIZE" and len: "2 \<le> length rs" and al: "inner_aligned PAGE_SIZE rs"
  shows "mapped_spans PAGE_SIZE (fst (built_multi_region PAGE_SIZE rs)) =
         requested_spans (fst (built_multi_region PAGE_SIZE rs))"
proof -
  let ?a = "AlignDown (data (hd rs)) PAGE_SIZE"
  from len al have e: "PAGE_SIZE dvd span_end (hd rs)"
    and inner: "list_all (page_multiple PAGE_SIZE) (butlast (tl rs))"
    and l: "PAGE_SIZE dvd data (last rs)"
    by (auto simp: inner_aligned_def)
  have a: "PAGE_SIZE dvd ?a" "?a \<le> data (hd rs)" using AlignDown_bounds [OF ps] by blast+
  from a have "?a \<le> span_end (hd rs)" by (simp add: span_end_def)
  with a e have "PAGE_SIZE dvd span_end (hd rs) - ?a" by (simp add: dvd_diff_nat)
  with a have first: "page_multiple PAGE_SIZE \<lparr>data = ?a, size_bytes = span_end (hd rs) - ?a\<rparr>"
    by (simp add: page_multiple_def)
  have "PAGE_SIZE dvd AlignUp (size_bytes (last rs)) PAGE_SIZE"
    using AlignUp_bounds [OF ps] by blast
  with l have lastp: "page_multiple PAGE_SIZE
      \<lparr>data = data (last rs), size_bytes = AlignUp (size_bytes (last rs)) PAGE_SIZE\<rparr>"
    by (simp add: page_multiple_def)
  from first inner lastp
  have "list_all (page_multiple PAGE_SIZE) (requested_spans (fst (built_multi_region PAGE_SIZE rs)))"
    by (simp add: built_multi_region_def Let_def)
  from mapped_spans_aligned [OF ps this] show ?thesis by (simp add: mapped_spans_def)
qed

lemma single_region_covered:
  assumes "0 < PAGE_SIZE"
  shows "fst (snd (spec_single_region PAGE_SIZE r)) + size_bytes r \<le>
         sum_list (map size_bytes (requested_spans (fst (spec_single_region PAGE_SIZE r))))"
proof -
  have "AlignDown (data r) PAGE_SIZE \<le> data r" using AlignDown_bounds [OF assms] by blast
  moreover have "span_end r \<le> AlignUp (span_end r) PAGE_SIZE"
    using AlignUp_bounds [OF assms] by blast
  ultimately show ?thesis by (simp add: spec_single_region_def Let_def span_end_def)
qed

lemma multi_region_covered:
  assumes ps: "0 < PAGE_SIZE" and len: "2 \<le> length rs"
  shows "fst (snd (built_multi_region PAGE_SIZE rs)) + sum_list (map size_bytes rs) \<le>
         sum_list (map size_bytes (requested_spans (fst (built_multi_region PAGE_SIZE rs))))"
proof -
  have a: "AlignDown (data (hd rs)) PAGE_SIZE \<le> data (hd rs)"
    using AlignDown_bounds [OF ps] by blast
  have up: "size_bytes (last rs) \<le> AlignUp (size_bytes (last rs)) PAGE_SIZE"
    using AlignUp_bounds [OF ps] by blast
  from a up show ?thesis
    by (simp add: built_multi_region_def Let_def sum_front_inner_back [OF len] span_end_def)
qed

lemma SetupGuestMappings_resolves:
  assumes ps: "0 < PAGE_SIZE" and ne: "rs \<noteq> []" and fit: "regions_fit PAGE_SIZE rs"
  shows "\<exists>request off. SetupGuestMappings PAGE_SIZE rs =
            Inr (request, off, sum_list (map size_bytes rs)) \<and>
          off + sum_list (map size_bytes rs) \<le>
            sum_list (map size_bytes (mapped_spans PAGE_SIZE request)) \<and>
          (inner_aligned PAGE_SIZE rs \<longrightarrow>
             (\<forall>pos < sum_list (map size_bytes rs).
                mirror_address (mapped_spans PAGE_SIZE request) (off + pos) =
                  mirror_address rs pos))"
proof (cases "length rs = 1")
  case True
  then obtain r where rs: "rs = [r]" by (cases rs) auto
  have "SetupGuestMappings PAGE_SIZE rs = Inr (spec_single_region PAGE_SIZE r)"
    by (simp add: rs SetupGuestMappings_def spec_single_region_def Let_def span_end_def)
  moreover have "snd (snd (spec_single_region PAGE_SIZE r)) = sum_list (map size_bytes rs)"
    by (simp add: rs spec_single_region_def Let_def)
  moreover have "fst (snd (spec_single_region PAGE_SIZE r)) + sum_list (map size_bytes rs) \<le>
      sum_list (map size_bytes (mapped_spans PAGE_SIZE (fst (spec_single_region PAGE_SIZE r))))"
    using single_region_covered [OF ps, of r] by (simp add: rs single_region_mapping [OF ps])
  moreover have "\<forall>pos < sum_list (map size_bytes rs).
      mirror_address (mapped_spans PAGE_SIZE (fst (spec_single_region PAGE_SIZE r)))
           (fst (snd (spec_single_region PAGE_SIZE r)) + pos) = mirror_address rs pos"
    using mirror_single_resolves [OF ps] by (simp add: rs single_region_mapping [OF ps])
  ultimately show ?thesis
    by (metis prod.collapse)
next
  case False
  with ne have len: "2 \<le> length rs" by (cases rs) (auto simp: Suc_le_eq)
  from fit False have sum: "sum_list (map size_bytes rs) < 2 ^ 64"
    and lastfit: "AlignUp (size_bytes (last rs)) PAGE_SIZE < 2 ^ 64"
    by (simp_all add: regions_fit_def)
  have "SetupGuestMappings PAGE_SIZE rs = Inr (built_multi_region PAGE_SIZE rs)"
    by (rule SetupGuestMappings_multi [OF len sum lastfit])
  moreover have "snd (snd (built_multi_region PAGE_SIZE rs)) = sum_list (map size_bytes rs)"
    by (simp add: built_multi_region_def Let_def)
  moreover have "fst (snd (built_multi_region PAGE_SIZE rs)) + sum_list (map size_bytes rs) \<le>
      sum_list (map size_bytes (mapped_spans PAGE_SIZE (fst (built_multi_region PAGE_SIZE rs))))"
    using multi_region_covered [OF ps len]
      mapped_spans_size [OF ps, of "requested_spans (fst (built_multi_region PAGE_SIZE rs))"]
    by (simp add: mapped_spans_def)
  moreover have "inner_aligned PAGE_SIZE rs \<longrightarrow> (\<forall>pos < sum_list (map size_bytes rs).
      mirror_address (mapped_spans PAGE_SIZE (fst (built_multi_region PAGE_SIZE rs)))
           (fst (snd (built_multi_region PAGE_SIZE rs)) + pos) = mirror_address rs pos)"
    using mirror_multi_resolves [OF ps len] by (simp add: multi_region_mapping [OF ps len])
  ultimately show ?thesis
    by (metis prod.collapse)
qed

lemma BufferSize_loop_sum:
  "sz + sum_list (map size_bytes ms) < 2 ^ 64 \<Longrightarrow>
   BufferSize_loop sz ms = sz + sum_list (map size_bytes ms)"
proof (induction ms arbitrary: sz)
  case Nil
  then show ?case by simp
next
  case (Cons m ms)
  from Cons.prems have "sz + size_bytes m < 2 ^ 64" by simp
  moreover from Cons.prems have "(sz + size_bytes m) + sum_list (map size_bytes ms) < 2 ^ 64"
    by (simp add: add.assoc)
  ultimately show ?case using Cons.IH [of "sz + size_bytes m"]
    by (simp add: add.assoc)
qed

lemma BufferSize_sum:
  "sum_list (map size_bytes ms) < 2 ^ 64 \<Longrightarrow> BufferSize ms = sum_list (map size_bytes ms)"
  using BufferSize_loop_sum [of 0 ms] by (simp add: BufferSize_def)

text \<open>Without the bound the size is the sum of the lengths modulo \<open>2 ^ 64\<close>.\<close>

lemma BufferSize_loop_mod:
  "BufferSize_loop sz ms mod 2 ^ 64 = (sz + sum_list (map size_bytes ms)) mod 2 ^ 64"
proof (induction ms arbitrary: sz)
  case Nil
  then show ?case by simp
next
  case (Cons m ms)
  have "BufferSize_loop sz (m # ms) mod 2 ^ 64 =
        ((sz + size_bytes m) mod 2 ^ 64 + sum_list (map size_bytes ms)) mod 2 ^ 64"
    using Cons.IH [of "(sz + size_bytes m) mod 2 ^ 64"] by simp
  also have "\<dots> = (sz + size_bytes m + sum_list (map size_bytes ms)) mod 2 ^ 64"
    by (rule mod_add_left_eq)
  finally show ?case by (simp add: add.assoc)
qed

lemma BufferSize_wraps:
  "ms \<noteq> [] \<Longrightarrow> BufferSize ms = sum_list (map size_bytes ms) mod 2 ^ 64"
proof -
  assume "ms \<noteq> []"
  have bounded: "xs \<noteq> [] \<Longrightarrow> BufferSize_loop sz xs < 2 ^ 64" for xs sz
  proof (induction xs arbitrary: sz)
    case Nil
    then show ?case by simp
  next
    case (Cons x xs)
    show ?case
    proof (cases xs)
      case Nil
      then show ?thesis by simp
    next
      case (Cons y ys)
      with Cons.IH [of "(sz + size_bytes x) mod 2 ^ 64"] show ?thesis by simp
    qed
  qed
  from bounded [OF \<open>ms \<noteq> []\<close>, of 0] have "BufferSize ms mod 2 ^ 64 = BufferSize ms"
    by (simp add: BufferSize_def)
  with BufferSize_loop_mod [of 0 ms] show ?thesis by (simp add: BufferSize_def)
qed

lemma flat_address_Cons:
  "flat_address (r # rs) pos =
     (if pos < size_bytes r then data r + pos else flat_address rs (pos - size_bytes r))"
  by (simp add: flat_address_def Let_def)

lemma mirror_address_flat:
  "pos < sum_list (map size_bytes rs) \<Longrightarrow> mirror_address rs pos = Some (flat_address rs pos)"
  by (simp add: mirror_address_region_of flat_address_def Let_def)


lemma Write_loop_cong:
  "(\<forall>i < length bs. mirror_address xs (p + i) = mirror_address ys (q + i)) \<Longrightarrow>
   Write_loop xs p bs m = Write_loop ys q bs m"
proof (induction bs arbitrary: p q m)
  case Nil
  then show ?case by simp
next
  case (Cons b bs)
  from Cons.prems have head: "mirror_address xs p = mirror_address ys q"
    by (metis add.right_neutral length_greater_0_conv list.distinct(1))
  have "\<forall>i < length bs. mirror_address xs (Suc p + i) = mirror_address ys (Suc q + i)"
  proof (intro allI impI)
    fix i assume "i < length bs"
    then have "Suc i < length (b # bs)" by simp
    with Cons.prems have "mirror_address xs (p + Suc i) = mirror_address ys (q + Suc i)"
      by blast
    then show "mirror_address xs (Suc p + i) = mirror_address ys (Suc q + i)" by simp
  qed
  from Cons.IH [OF this] head show ?case
    by (simp add: fun_upd_def split: option.splits)
qed

lemma Write_loop_regions:
  "pos + length bs \<le> sum_list (map size_bytes rs) \<Longrightarrow>
   Write_loop rs pos bs m = Inr (region_write rs pos bs m)"
proof (induction bs arbitrary: pos m)
  case Nil
  then show ?case by simp
next
  case (Cons b bs)
  from Cons.prems have "pos < sum_list (map size_bytes rs)" by simp
  then have "mirror_address rs pos = Some (flat_address rs pos)"
    by (rule mirror_address_flat)
  moreover from Cons.prems have "Suc pos + length bs \<le> sum_list (map size_bytes rs)" by simp
  ultimately show ?case using Cons.IH by (simp add: fun_upd_def)
qed


lemma invariant_mirror:
  assumes "Buffer_invariant PAGE_SIZE w"
  shows "\<exists>mapping off. alignedMirror w = Some mapping \<and>
           mirror w = (off, sum_list (map size_bytes (guest w))) \<and>
           size_buffer w = sum_list (map size_bytes (guest w)) \<and>
           off + sum_list (map size_bytes (guest w)) \<le> sum_list (map size_bytes mapping) \<and>
           (inner_aligned PAGE_SIZE (guest w) \<longrightarrow>
              (\<forall>pos < sum_list (map size_bytes (guest w)).
                 mirror_address mapping (off + pos) = mirror_address (guest w) pos))"
proof -
  from assms have ps: "0 < PAGE_SIZE" and ne: "guest w \<noteq> []"
    and fit: "regions_fit PAGE_SIZE (guest w)"
    and sz: "size_buffer w = BufferSize (guest w)"
    by (simp_all add: Buffer_invariant_def)
  from fit have sum: "sum_list (map size_bytes (guest w)) < 2 ^ 64"
    by (simp add: regions_fit_def)
  from SetupGuestMappings_resolves [OF ps ne fit] obtain request off where
    built: "SetupGuestMappings PAGE_SIZE (guest w) =
              Inr (request, off, sum_list (map size_bytes (guest w)))"
    and cov: "off + sum_list (map size_bytes (guest w)) \<le>
                sum_list (map size_bytes (mapped_spans PAGE_SIZE request))"
    and res: "inner_aligned PAGE_SIZE (guest w) \<longrightarrow>
             (\<forall>pos < sum_list (map size_bytes (guest w)).
                mirror_address (mapped_spans PAGE_SIZE request) (off + pos) =
                  mirror_address (guest w) pos)"
    by blast
  from assms built have "mirror w = (off, sum_list (map size_bytes (guest w)))"
    and "alignedMirror w = Some (mapped_spans PAGE_SIZE request)"
    by (simp_all add: Buffer_invariant_def)
  with cov res sz sum show ?thesis by (simp add: BufferSize_sum)
qed


lemma Write_at_flat_offsets:
  assumes inv: "Buffer_invariant PAGE_SIZE w"
    and al: "inner_aligned PAGE_SIZE (guest w)"
    and pre: "off + length bytes \<le> snd (mirror w)"
  shows "off + length bytes \<le> sum_list (map size_bytes (guest w)) \<and>
         Write bytes off w =
           Inr (w\<lparr>env := (env w)\<lparr>memory :=
                  region_write (guest w) off bytes (memory (env w))\<rparr>\<rparr>)"
proof -
  from invariant_mirror [OF inv] al obtain mapping moff where
    am: "alignedMirror w = Some mapping"
    and mi: "mirror w = (moff, sum_list (map size_bytes (guest w)))"
    and res: "\<forall>pos < sum_list (map size_bytes (guest w)).
       mirror_address mapping (moff + pos) = mirror_address (guest w) pos"
    by blast
  from pre mi have bound: "off + length bytes \<le> sum_list (map size_bytes (guest w))" by simp
  have "\<forall>i < length bytes. mirror_address mapping (moff + off + i) =
          mirror_address (guest w) (off + i)"
  proof (intro allI impI)
    fix i assume "i < length bytes"
    with bound have "off + i < sum_list (map size_bytes (guest w))" by simp
    with res show "mirror_address mapping (moff + off + i) =
          mirror_address (guest w) (off + i)"
      by (simp add: add.assoc)
  qed
  then have "Write_loop mapping (moff + off) bytes (memory (env w)) =
             Write_loop (guest w) off bytes (memory (env w))"
    by (rule Write_loop_cong)
  also have "\<dots> = Inr (region_write (guest w) off bytes (memory (env w)))"
    by (rule Write_loop_regions [OF bound])
  finally have "Write bytes off w =
           Inr (w\<lparr>env := (env w)\<lparr>memory :=
                  region_write (guest w) off bytes (memory (env w))\<rparr>\<rparr>)"
    using pre by (simp add: Write_def am mi)
  with bound show ?thesis by blast
qed



lemma example_world_invariant: "Buffer_invariant 4096 example_world"
  by (simp add: Buffer_invariant_def example_world_def example_regions_def BufferSize_def
      SetupGuestMappings_def AlignDown_def AlignUp_def Let_def regions_fit_def
      mapped_spans_def page_span_def span_end_def)


lemma example_aligned_inner: "inner_aligned 4096 example_aligned"
  by (simp add: inner_aligned_def example_aligned_def page_multiple_def span_end_def)

section \<open>The host copy and the constructor\<close>

lemma host_image_Cons:
  "host_image m rs (host + size_bytes r) (memcpy b host m (data r) (size_bytes r)) =
   host_image m (r # rs) host b"
proof
  fix i
  show "host_image m rs (host + size_bytes r) (memcpy b host m (data r) (size_bytes r)) i =
        host_image m (r # rs) host b i"
  proof (cases "host + size_bytes r \<le> i")
    case True
    then have "\<not> i - host < size_bytes r" "i - (host + size_bytes r) = i - host - size_bytes r"
      "host \<le> i" by simp_all
    with True show ?thesis
      by (simp add: host_image_def memcpy_def flat_address_Cons add.assoc)
  next
    case False
    then show ?thesis
      by (auto simp: host_image_def memcpy_def flat_address_Cons)
  qed
qed

lemma host_image_Nil: "host_image m [] host b = b"
  by (rule ext) (auto simp: host_image_def)

lemma SynchronizeHost_loop_eq:
  "host + sum_list (map size_bytes ms) \<le> size_buffer w \<Longrightarrow>
   SynchronizeHost_loop ms host w =
     Inr (w\<lparr>env := (env w)\<lparr>backing := host_image (memory (env w)) ms host (backing (env w))\<rparr>,
           calls := calls w @ map CopyToHost ms\<rparr>)"
proof (induction ms arbitrary: host w)
  case Nil
  then show ?case by (simp add: host_image_Nil)
next
  case (Cons r rs)
  let ?w1 = "w\<lparr>env := (env w)\<lparr>backing :=
                 memcpy (backing (env w)) host (memory (env w)) (data r) (size_bytes r)\<rparr>,
               calls := calls w @ [CopyToHost r]\<rparr>"
  from Cons.prems have fits: "host + size_bytes r \<le> size_buffer w" by simp
  from Cons.prems have "(host + size_bytes r) + sum_list (map size_bytes rs) \<le> size_buffer ?w1"
    by (simp add: add.assoc)
  from Cons.IH [OF this] fits show ?case
    by (simp add: Let_def host_image_Cons)
qed

lemma SynchronizeHostWithCycle_loop_eq:
  "host + sum_list (map size_bytes ms) \<le> size_buffer w \<Longrightarrow>
   SynchronizeHostWithCycle_loop ms host w =
     Inr (w\<lparr>env := (env w)\<lparr>backing := host_image (memory (env w)) ms host (backing (env w))\<rparr>,
           calls := calls w @ map CopyToHost ms\<rparr>)"
proof (induction ms arbitrary: host w)
  case Nil
  then show ?case by (simp add: host_image_Nil)
next
  case (Cons r rs)
  let ?w1 = "w\<lparr>env := (env w)\<lparr>backing :=
                 memcpy (backing (env w)) host (memory (env w)) (data r) (size_bytes r)\<rparr>,
               calls := calls w @ [CopyToHost r]\<rparr>"
  from Cons.prems have fits: "host + size_bytes r \<le> size_buffer w" by simp
  from Cons.prems have "(host + size_bytes r) + sum_list (map size_bytes rs) \<le> size_buffer ?w1"
    by (simp add: add.assoc)
  from Cons.IH [OF this] fits show ?case
    by (simp add: Let_def host_image_Cons)
qed

lemma Buffer_construct_eq:
  assumes ps: "0 < PAGE_SIZE" and ne: "ms \<noteq> []" and fit: "regions_fit PAGE_SIZE ms"
  shows "\<exists>request off.
           SetupGuestMappings PAGE_SIZE ms = Inr (request, off, sum_list (map size_bytes ms)) \<and>
           Buffer_construct PAGE_SIZE Wait e ms =
             Inr \<lparr>size_buffer = sum_list (map size_bytes ms), guest = ms,
                  mirror = (off, sum_list (map size_bytes ms)),
                  alignedMirror = Some (mapped_spans PAGE_SIZE request),
                  cycle = None, views = [],
                  env = e\<lparr>backing := host_image (memory e) ms 0 (backing e)\<rparr>,
                  calls = [AllocateBuffer (sum_list (map size_bytes ms)), MirrorRequest request]
                          @ map CopyToHost ms\<rparr>"
proof -
  from SetupGuestMappings_resolves [OF ps ne fit] obtain request off where
    built: "SetupGuestMappings PAGE_SIZE ms = Inr (request, off, sum_list (map size_bytes ms))"
    by blast
  from fit have sum: "sum_list (map size_bytes ms) < 2 ^ 64" by (simp add: regions_fit_def)
  let ?n = "sum_list (map size_bytes ms)"
  let ?w0 = "\<lparr>size_buffer = ?n, guest = ms, mirror = (off, ?n),
              alignedMirror = Some (mapped_spans PAGE_SIZE request),
              cycle = None, views = [], env = e,
              calls = [AllocateBuffer ?n, MirrorRequest request]\<rparr>"
  have "0 + ?n \<le> size_buffer ?w0" by simp
  from SynchronizeHost_loop_eq [OF this]
  have "Buffer_construct PAGE_SIZE Wait e ms =
             Inr \<lparr>size_buffer = ?n, guest = ms,
                  mirror = (off, ?n), alignedMirror = Some (mapped_spans PAGE_SIZE request),
                  cycle = None, views = [],
                  env = e\<lparr>backing := host_image (memory e) ms 0 (backing e)\<rparr>,
                  calls = [AllocateBuffer ?n, MirrorRequest request] @ map CopyToHost ms\<rparr>"
    by (simp add: Buffer_construct_def built BufferSize_sum [OF sum] SynchronizeHost_def
        WaitOnFence_def Let_def)
  with built show ?thesis by blast
qed

lemma Buffer_construct_invariant:
  assumes ps: "0 < PAGE_SIZE" and ne: "ms \<noteq> []" and fit: "regions_fit PAGE_SIZE ms"
  shows "\<exists>w. Buffer_construct PAGE_SIZE Wait e ms = Inr w \<and> Buffer_invariant PAGE_SIZE w \<and>
             guest w = ms \<and> memory (env w) = memory e \<and> cycle w = None \<and> views w = []"
proof -
  from Buffer_construct_eq [OF ps ne fit, of Wait e] obtain request off where
    "SetupGuestMappings PAGE_SIZE ms = Inr (request, off, sum_list (map size_bytes ms))"
    and "Buffer_construct PAGE_SIZE Wait e ms =
             Inr \<lparr>size_buffer = sum_list (map size_bytes ms), guest = ms,
                  mirror = (off, sum_list (map size_bytes ms)),
                  alignedMirror = Some (mapped_spans PAGE_SIZE request),
                  cycle = None, views = [],
                  env = e\<lparr>backing := host_image (memory e) ms 0 (backing e)\<rparr>,
                  calls = [AllocateBuffer (sum_list (map size_bytes ms)), MirrorRequest request]
                          @ map CopyToHost ms\<rparr>"
    by blast
  moreover from fit have "sum_list (map size_bytes ms) < 2 ^ 64" by (simp add: regions_fit_def)
  ultimately show ?thesis
    using ps ne fit by (simp add: Buffer_invariant_def BufferSize_sum)
qed

text \<open>
  C6, as amended. For regions whose lengths stay within 64 bits the constructor returns
  a Buffer whose size is the sum of the lengths. If the regions are page-aligned where
  one follows the other, then for every flat offset below the size the region \<open>k\<close>
  whose interval of cumulative lengths holds the offset exists, and a \<open>Write\<close> of one
  byte at the offset changes guest memory at exactly the address of region \<open>k\<close> plus
  the offset less the lengths of the regions before \<open>k\<close>.
\<close>

theorem Buffer_size_and_flat_write:
  assumes ps: "0 < PAGE_SIZE" and ne: "ms \<noteq> []" and fit: "regions_fit PAGE_SIZE ms"
  shows "\<exists>w. Buffer_construct PAGE_SIZE Wait e ms = Inr w \<and>
           size_buffer w = sum_list (map size_bytes ms) \<and>
           (inner_aligned PAGE_SIZE ms \<longrightarrow>
              (\<forall>pos < size_buffer w. \<forall>v.
                 (let ls = map size_bytes ms; k = region_of ls pos
                  in k < length ms \<and> sum_list (take k ls) \<le> pos \<and>
                     pos < sum_list (take (Suc k) ls) \<and>
                     (\<exists>w'. Write [v] pos w = Inr w' \<and>
                        memory (env w') =
                          (memory (env w))(data (ms ! k) + (pos - sum_list (take k ls)) := v)))))"
proof -
  from Buffer_construct_invariant [OF ps ne fit, of Wait e] obtain w where
    w: "Buffer_construct PAGE_SIZE Wait e ms = Inr w" and inv: "Buffer_invariant PAGE_SIZE w"
    and g: "guest w = ms"
    by blast
  from invariant_mirror [OF inv] g have sz: "size_buffer w = sum_list (map size_bytes ms)"
    and mi: "snd (mirror w) = sum_list (map size_bytes ms)"
    by auto
  have "inner_aligned PAGE_SIZE ms \<longrightarrow> (\<forall>pos < size_buffer w. \<forall>v.
              (let ls = map size_bytes ms; k = region_of ls pos
               in k < length ms \<and> sum_list (take k ls) \<le> pos \<and>
                  pos < sum_list (take (Suc k) ls) \<and>
                  (\<exists>w'. Write [v] pos w = Inr w' \<and>
                     memory (env w') =
                       (memory (env w))(data (ms ! k) + (pos - sum_list (take k ls)) := v))))"
  proof (intro allI impI)
    fix pos and v :: u8
    assume al: "inner_aligned PAGE_SIZE ms" and "pos < size_buffer w"
    with sz have pos: "pos < sum_list (map size_bytes ms)" by simp
    with mi have "pos + length [v] \<le> snd (mirror w)" by simp
    from Write_at_flat_offsets [OF inv _ this] al g
    have "Write [v] pos w =
            Inr (w\<lparr>env := (env w)\<lparr>memory := (memory (env w))(flat_address ms pos := v)\<rparr>\<rparr>)"
      by simp
    with region_of_interval [OF pos]
    show "let ls = map size_bytes ms; k = region_of ls pos
               in k < length ms \<and> sum_list (take k ls) \<le> pos \<and>
                  pos < sum_list (take (Suc k) ls) \<and>
                  (\<exists>w'. Write [v] pos w = Inr w' \<and>
                     memory (env w') =
                       (memory (env w))(data (ms ! k) + (pos - sum_list (take k ls)) := v))"
      by (simp add: Let_def flat_address_def)
  qed
  with w sz show ?thesis by blast
qed

text \<open>
  An instance of C6: offset 3192 of the three aligned regions is the first byte of the
  second.
\<close>

theorem Buffer_size_and_flat_write_witness:
  "(0::nat) < 4096 \<and> example_aligned \<noteq> [] \<and> regions_fit 4096 example_aligned \<and>
   inner_aligned 4096 example_aligned \<and>
   (\<exists>w. Buffer_construct 4096 idle_fence example_env example_aligned = Inr w \<and>
        size_buffer w = 7298 \<and>
        (\<exists>w'. Write [7] 3192 w = Inr w' \<and> memory (env w') = (memory (env w))(16384 := 7)))"
proof -
  have h1: "(0::nat) < 4096" by simp
  have h2: "example_aligned \<noteq> []" by (simp add: example_aligned_def)
  have h3: "regions_fit 4096 example_aligned"
    by (simp add: regions_fit_def example_aligned_def AlignUp_def AlignDown_def)
  from Buffer_size_and_flat_write [OF h1 h2 h3, of idle_fence example_env]
    example_aligned_inner
  obtain w where c: "Buffer_construct 4096 idle_fence example_env example_aligned = Inr w"
    and s: "size_buffer w = sum_list (map size_bytes example_aligned)"
    and a: "\<forall>pos < size_buffer w. \<forall>v.
              (let ls = map size_bytes example_aligned; k = region_of ls pos
               in k < length example_aligned \<and> sum_list (take k ls) \<le> pos \<and>
                  pos < sum_list (take (Suc k) ls) \<and>
                  (\<exists>w'. Write [v] pos w = Inr w' \<and>
                     memory (env w') =
                       (memory (env w))(data (example_aligned ! k) + (pos - sum_list (take k ls)) := v)))"
    by blast
  from s have size: "size_buffer w = 7298" by (simp add: example_aligned_def)
  then have "3192 < size_buffer w" by simp
  from a [rule_format, OF this, of 7]
  have "\<exists>w'. Write [7] 3192 w = Inr w' \<and> memory (env w') = (memory (env w))(16384 := 7)"
    by (simp add: Let_def example_aligned_def)
  with c size h1 h2 h3 example_aligned_inner show ?thesis by blast
qed

text \<open>
  C6 as the specification states it fails where a region ends inside a page and another
  follows: the mapping holds the whole page, and the flat offsets past the first region
  resolve into the rest of that page. In the Buffer over the example regions flat offset
  3 belongs to the second region, at 9000; the byte written there lands at 5003.
\<close>

theorem Write_unaligned_boundary_counterexample:
  "Buffer_construct 4096 idle_fence example_env example_regions = Inr example_built \<and>
   size_buffer example_built = 5 \<and>
   region_of (map size_bytes example_regions) 3 = 1 \<and>
   data (example_regions ! 1) + (3 - sum_list (take 1 (map size_bytes example_regions))) = 9000 \<and>
   map_sum id (\<lambda>w. (memory (env w) 9000, memory (env w) 5003)) (Write [7] 3 example_built) =
     Inr (0, 7)"
proof -
  have "memcpy (memcpy (\<lambda>i. 0) 0 (\<lambda>a. 0) 5000 3) 3 (\<lambda>a. 0) 9000 2 = (\<lambda>i. 0 :: u8)"
    by (rule ext) (simp add: memcpy_def)
  then have "Buffer_construct 4096 idle_fence example_env example_regions = Inr example_built"
    by (simp add: Buffer_construct_def example_built_def example_world_def example_env_def
        example_regions_def BufferSize_def SetupGuestMappings_def AlignDown_def AlignUp_def
        Let_def mapped_spans_def page_span_def span_end_def SynchronizeHost_def
        WaitOnFence_def)
  moreover have "map_sum id (\<lambda>w. (memory (env w) 9000, memory (env w) 5003))
        (Write [7] 3 example_built) = Inr (0, 7)"
    by (simp add: Write_def example_built_def example_world_def example_env_def)
  ultimately show ?thesis
    by (simp add: example_built_def example_world_def example_regions_def)
qed
section \<open>Synchronisation\<close>

lemma WaitOnFence_fields:
  "size_buffer (WaitOnFence Wait w) = size_buffer w"
  "guest (WaitOnFence Wait w) = guest w"
  "mirror (WaitOnFence Wait w) = mirror w"
  "alignedMirror (WaitOnFence Wait w) = alignedMirror w"
  "views (WaitOnFence Wait w) = views w"
  "cycle (WaitOnFence Wait w) = None"
  "calls (WaitOnFence Wait w) =
     calls w @ (case cycle w of None \<Rightarrow> [] | Some c \<Rightarrow> FenceWait c # snd (Wait c w))"
  "env (WaitOnFence Wait w) = (case cycle w of None \<Rightarrow> env w | Some c \<Rightarrow> fst (Wait c w))"
  by (simp_all add: WaitOnFence_def split: option.splits)

lemma WaitOnFence_idle: "cycle w = None \<Longrightarrow> WaitOnFence Wait w = w"
  by (simp add: WaitOnFence_def)

lemma SynchronizeHost_eq:
  assumes "sum_list (map size_bytes (guest w)) \<le> size_buffer w"
  shows "SynchronizeHost Wait w = Inr (host_copied (WaitOnFence Wait w))"
proof -
  let ?w' = "WaitOnFence Wait w"
  from assms have "0 + sum_list (map size_bytes (guest ?w')) \<le> size_buffer ?w'"
    by (simp add: WaitOnFence_fields)
  from SynchronizeHost_loop_eq [OF this] show ?thesis
    by (simp add: SynchronizeHost_def host_copied_def Let_def)
qed

lemma SynchronizeHostWithCycle_eq:
  assumes "sum_list (map size_bytes (guest w)) \<le> size_buffer w"
  shows "SynchronizeHostWithCycle Wait pCycle w =
         Inr (host_copied (if pCycle \<noteq> cycle w then WaitOnFence Wait w else w))"
proof -
  let ?w' = "if pCycle \<noteq> cycle w then WaitOnFence Wait w else w"
  from assms have "0 + sum_list (map size_bytes (guest ?w')) \<le> size_buffer ?w'"
    by (simp add: WaitOnFence_fields)
  from SynchronizeHostWithCycle_loop_eq [OF this] show ?thesis
    by (simp add: SynchronizeHostWithCycle_def host_copied_def Let_def)
qed

lemma example_pending_fits:
  "sum_list (map size_bytes (guest example_pending)) \<le> size_buffer example_pending"
  by (simp add: example_pending_def example_world_def example_regions_def)

text \<open>
  C5. Where the host allocation holds all regions, \<open>SynchronizeHost\<close> waits on the
  pending cycle whichever it is (the call of the wait is made, the environment is the
  one the wait leaves, no cycle is pending afterwards) and then copies every region's
  bytes into the host allocation in region order. \<open>SynchronizeHostWithCycle\<close> called
  with the pending cycle makes the same copy without a wait and leaves the cycle
  pending; called with another cycle it does what \<open>SynchronizeHost\<close> does.
\<close>

theorem SynchronizeHostWithCycle_waits_only_for_other_cycle:
  assumes "sum_list (map size_bytes (guest w)) \<le> size_buffer w"
  shows "(cycle w = None \<longrightarrow> SynchronizeHost Wait w = Inr (host_copied w)) \<and>
         (\<forall>p. cycle w = Some p \<longrightarrow>
            SynchronizeHost Wait w =
              Inr (host_copied (w\<lparr>env := fst (Wait p w),
                                   calls := calls w @ FenceWait p # snd (Wait p w),
                                   cycle := None\<rparr>))) \<and>
         SynchronizeHostWithCycle Wait pCycle w =
           (if pCycle = cycle w then Inr (host_copied w) else SynchronizeHost Wait w)"
proof (intro conjI allI impI)
  assume "cycle w = None"
  with SynchronizeHost_eq [OF assms, of Wait]
  show "SynchronizeHost Wait w = Inr (host_copied w)" by (simp add: WaitOnFence_def)
next
  fix p assume "cycle w = Some p"
  with SynchronizeHost_eq [OF assms, of Wait]
  show "SynchronizeHost Wait w =
          Inr (host_copied (w\<lparr>env := fst (Wait p w),
                               calls := calls w @ FenceWait p # snd (Wait p w),
                               cycle := None\<rparr>))"
    by (simp add: WaitOnFence_def)
next
  show "SynchronizeHostWithCycle Wait pCycle w =
           (if pCycle = cycle w then Inr (host_copied w) else SynchronizeHost Wait w)"
    using SynchronizeHost_eq [OF assms, of Wait] SynchronizeHostWithCycle_eq [OF assms, of Wait]
    by simp
qed

text \<open>
  An instance of C5: with cycle 1 pending, \<open>SynchronizeHost\<close> waits and leaves no cycle
  pending, the variant called with cycle 1 does not wait and leaves cycle 1 pending, the
  variant called with cycle 2 waits.
\<close>

theorem SynchronizeHostWithCycle_waits_only_for_other_cycle_witness:
  "sum_list (map size_bytes (guest example_pending)) \<le> size_buffer example_pending \<and>
   cycle example_pending = Some 1 \<and>
   map_sum id (\<lambda>w. (calls w, cycle w))
       (SynchronizeHost gpu_fence example_pending) =
     Inr (FenceWait 1 # map CopyToHost example_regions, None) \<and>
   map_sum id (\<lambda>w. (calls w, cycle w))
       (SynchronizeHostWithCycle gpu_fence (Some 1) example_pending) =
     Inr (map CopyToHost example_regions, Some 1) \<and>
   map_sum id (\<lambda>w. (calls w, cycle w))
       (SynchronizeHostWithCycle gpu_fence (Some 2) example_pending) =
     Inr (FenceWait 1 # map CopyToHost example_regions, None)"
proof -
  have p: "cycle example_pending = Some 1" by (simp add: example_pending_def)
  from SynchronizeHostWithCycle_waits_only_for_other_cycle
          [OF example_pending_fits, of gpu_fence "Some 1"]
        SynchronizeHostWithCycle_waits_only_for_other_cycle
          [OF example_pending_fits, of gpu_fence "Some 2"]
        example_pending_fits p
  show ?thesis
    by (simp add: host_copied_def host_image_def gpu_fence_def example_pending_def
        example_world_def example_regions_def example_env_def)
qed

lemma SynchronizeGuest_loop_eq:
  "host + sum_list (map size_bytes ms) \<le> size_buffer w \<Longrightarrow>
   SynchronizeGuest_loop ms host w =
     Inr (w\<lparr>env := (env w)\<lparr>memory := guest_image (backing (env w)) ms host (memory (env w))\<rparr>,
           calls := calls w @ map CopyToGuest ms\<rparr>)"
proof (induction ms arbitrary: host w)
  case Nil
  then show ?case by simp
next
  case (Cons r rs)
  let ?w1 = "w\<lparr>env := (env w)\<lparr>memory :=
                 memcpy (memory (env w)) (data r) (backing (env w)) host (size_bytes r)\<rparr>,
               calls := calls w @ [CopyToGuest r]\<rparr>"
  from Cons.prems have fits: "host + size_bytes r \<le> size_buffer w" by simp
  from Cons.prems have "(host + size_bytes r) + sum_list (map size_bytes rs) \<le> size_buffer ?w1"
    by (simp add: add.assoc)
  from Cons.IH [OF this] fits show ?case
    by (simp add: Let_def)
qed

lemma guest_image_agree:
  "(\<forall>p < sum_list (map size_bytes ms). b (host + p) = m (flat_address ms p)) \<Longrightarrow>
   guest_image b ms host m = m"
proof (induction ms arbitrary: host)
  case Nil
  then show ?case by simp
next
  case (Cons r rs)
  have first: "memcpy m (data r) b host (size_bytes r) = m"
  proof
    fix a
    show "memcpy m (data r) b host (size_bytes r) a = m a"
    proof (cases "data r \<le> a \<and> a < data r + size_bytes r")
      case True
      then have lo: "data r \<le> a" and hi: "a < data r + size_bytes r" by simp_all
      then have loc: "a - data r < size_bytes r" by linarith
      then have "a - data r < sum_list (map size_bytes (r # rs))" by simp
      with Cons.prems have "b (host + (a - data r)) = m (flat_address (r # rs) (a - data r))"
        by blast
      with lo hi loc show ?thesis by (simp add: memcpy_def flat_address_Cons)
    next
      case False
      then show ?thesis by (auto simp: memcpy_def)
    qed
  qed
  have "\<forall>p < sum_list (map size_bytes rs). b (host + size_bytes r + p) = m (flat_address rs p)"
  proof (intro allI impI)
    fix p assume "p < sum_list (map size_bytes rs)"
    then have "size_bytes r + p < sum_list (map size_bytes (r # rs))" by simp
    with Cons.prems
    have "b (host + (size_bytes r + p)) = m (flat_address (r # rs) (size_bytes r + p))"
      by blast
    then show "b (host + size_bytes r + p) = m (flat_address rs p)"
      by (simp add: flat_address_Cons add.assoc)
  qed
  from Cons.IH [OF this] first show ?case by simp
qed

lemma guest_image_frame:
  "\<not> in_regions ms a \<Longrightarrow> guest_image b ms host m a = m a"
proof (induction ms arbitrary: host m)
  case Nil
  then show ?case by simp
next
  case (Cons r rs)
  from Cons.prems have out: "\<not> (data r \<le> a \<and> a < data r + size_bytes r)" and rest: "\<not> in_regions rs a"
    by (simp_all add: in_regions_def span_end_def)
  from Cons.IH [OF rest] out show ?case by (auto simp: memcpy_def)
qed

lemma disjoint_not_in_regions:
  assumes "list_all (\<lambda>r'. \<not> overlap r r') rs" and "data r \<le> a" and "a < span_end r"
  shows "\<not> in_regions rs a"
  using assms
  by (induction rs) (auto simp: in_regions_def overlap_def)

lemma guest_image_disjoint:
  "disjoint_regions ms \<Longrightarrow> p < sum_list (map size_bytes ms) \<Longrightarrow>
   guest_image b ms host m (flat_address ms p) = b (host + p)"
proof (induction ms arbitrary: host m p)
  case Nil
  then show ?case by simp
next
  case (Cons r rs)
  from Cons.prems have sep: "list_all (\<lambda>r'. \<not> overlap r r') rs" and dis: "disjoint_regions rs"
    by simp_all
  show ?case
  proof (cases "p < size_bytes r")
    case True
    then have "\<not> in_regions rs (data r + p)"
      by (intro disjoint_not_in_regions [OF sep]) (simp_all add: span_end_def)
    then have "guest_image b rs (host + size_bytes r)
                 (memcpy m (data r) b host (size_bytes r)) (data r + p) =
               memcpy m (data r) b host (size_bytes r) (data r + p)"
      by (rule guest_image_frame)
    with True show ?thesis by (simp add: flat_address_Cons memcpy_def)
  next
    case False
    with Cons.prems have "p - size_bytes r < sum_list (map size_bytes rs)" by simp
    from Cons.IH [OF dis this] False show ?thesis
      by (simp add: flat_address_Cons)
  qed
qed

text \<open>
  C4. Where the host allocation holds all regions and waiting on the fence leaves guest
  memory as it is (in particular where no cycle is pending), \<open>SynchronizeHost\<close>
  followed by \<open>SynchronizeGuest\<close> returns with guest memory unchanged, at every
  address; the regions may even overlap.
\<close>

theorem SynchronizeHost_SynchronizeGuest_round_trip:
  assumes fits: "sum_list (map size_bytes (guest w)) \<le> size_buffer w"
    and quiet: "memory (env (WaitOnFence Wait w)) = memory (env w)"
  shows "\<exists>w1 w2. SynchronizeHost Wait w = Inr w1 \<and> SynchronizeGuest Wait w1 = Inr w2 \<and>
           memory (env w2) = memory (env w)"
proof -
  let ?w0 = "WaitOnFence Wait w"
  let ?w1 = "host_copied ?w0"
  have h: "SynchronizeHost Wait w = Inr ?w1" by (rule SynchronizeHost_eq [OF fits])
  have idle: "WaitOnFence Wait ?w1 = ?w1"
    by (rule WaitOnFence_idle) (simp add: host_copied_def WaitOnFence_fields)
  from fits have "0 + sum_list (map size_bytes (guest ?w1)) \<le> size_buffer ?w1"
    by (simp add: host_copied_def WaitOnFence_fields)
  from SynchronizeGuest_loop_eq [OF this]
  have g: "SynchronizeGuest Wait ?w1 =
     Inr (?w1\<lparr>env := (env ?w1)\<lparr>memory :=
              guest_image (backing (env ?w1)) (guest ?w1) 0 (memory (env ?w1))\<rparr>,
           calls := calls ?w1 @ map CopyToGuest (guest ?w1)\<rparr>)"
    by (simp add: SynchronizeGuest_def idle Let_def)
  have "\<forall>p < sum_list (map size_bytes (guest ?w1)).
          backing (env ?w1) (0 + p) = memory (env ?w1) (flat_address (guest ?w1) p)"
    by (simp add: host_copied_def host_image_def WaitOnFence_fields)
  then have "guest_image (backing (env ?w1)) (guest ?w1) 0 (memory (env ?w1)) = memory (env ?w1)"
    by (rule guest_image_agree)
  moreover have "memory (env ?w1) = memory (env w)"
    using quiet by (simp add: host_copied_def)
  ultimately show ?thesis using h g by simp
qed

text \<open>An instance of C4: the example Buffer with a pending cycle that writes the host only.\<close>

theorem SynchronizeHost_SynchronizeGuest_round_trip_witness:
  "sum_list (map size_bytes (guest example_pending)) \<le> size_buffer example_pending \<and>
   memory (env (WaitOnFence gpu_fence example_pending)) = memory (env example_pending) \<and>
   (\<exists>w1 w2. SynchronizeHost gpu_fence example_pending = Inr w1 \<and>
            SynchronizeGuest gpu_fence w1 = Inr w2 \<and>
            memory (env w2) = memory (env example_pending))"
proof -
  have quiet: "memory (env (WaitOnFence gpu_fence example_pending)) = memory (env example_pending)"
    by (simp add: WaitOnFence_def example_pending_def gpu_fence_def)
  from SynchronizeHost_SynchronizeGuest_round_trip [OF example_pending_fits quiet]
    example_pending_fits quiet
  show ?thesis by blast
qed

text \<open>
  C8, as amended. The destructor locks the Buffer, waits on the pending cycle if there is
  one, copies every region back from the host allocation, unmaps the mirror if the span
  is valid, and unlocks, in this order. Where the regions do not overlap, every guest
  byte of the Buffer then equals the byte of the host allocation as the wait left it.
\<close>

theorem Buffer_destroy_synchronizes_then_unmaps:
  assumes fits: "sum_list (map size_bytes (guest w)) \<le> size_buffer w"
  shows "\<exists>w'. Buffer_destroy Wait w = Inr w' \<and>
           calls w' = calls w @ [MutexLock]
              @ (case cycle w of None \<Rightarrow> []
                 | Some c \<Rightarrow> FenceWait c # snd (Wait c (w\<lparr>calls := calls w @ [MutexLock]\<rparr>)))
              @ map CopyToGuest (guest w)
              @ (case alignedMirror w of None \<Rightarrow> [] | Some mapping \<Rightarrow> [Munmap mapping])
              @ [MutexUnlock] \<and>
           cycle w' = None \<and>
           backing (env w') =
             (case cycle w of None \<Rightarrow> backing (env w)
              | Some c \<Rightarrow> backing (fst (Wait c (w\<lparr>calls := calls w @ [MutexLock]\<rparr>)))) \<and>
           (disjoint_regions (guest w) \<longrightarrow>
              (\<forall>pos < sum_list (map size_bytes (guest w)).
                 memory (env w') (flat_address (guest w) pos) = backing (env w') pos))"
proof -
  let ?wl = "w\<lparr>calls := calls w @ [MutexLock]\<rparr>"
  let ?w0 = "WaitOnFence Wait ?wl"
  from fits have "0 + sum_list (map size_bytes (guest ?w0)) \<le> size_buffer ?w0"
    by (simp add: WaitOnFence_fields)
  from SynchronizeGuest_loop_eq [OF this]
  have g: "SynchronizeGuest Wait ?wl =
     Inr (?w0\<lparr>env := (env ?w0)\<lparr>memory :=
              guest_image (backing (env ?w0)) (guest w) 0 (memory (env ?w0))\<rparr>,
           calls := calls ?w0 @ map CopyToGuest (guest w)\<rparr>)"
    by (simp add: SynchronizeGuest_def Let_def WaitOnFence_fields)
  have img: "disjoint_regions (guest w) \<longrightarrow>
    (\<forall>pos < sum_list (map size_bytes (guest w)).
      guest_image (backing (env ?w0)) (guest w) 0 (memory (env ?w0)) (flat_address (guest w) pos) =
      backing (env ?w0) pos)"
    using guest_image_disjoint [where host = 0 and ms = "guest w"] by simp
  show ?thesis
    using img
    by (cases "alignedMirror w"; cases "cycle w")
       (simp_all add: Buffer_destroy_def SynchronizeGuest_forced_def g WaitOnFence_fields
          Let_def)
qed

text \<open>
  An instance of C8: the byte the GPU writes while the destructor waits on cycle 1
  reaches the guest before the mirror is unmapped.
\<close>

theorem Buffer_destroy_synchronizes_then_unmaps_witness:
  "sum_list (map size_bytes (guest example_pending)) \<le> size_buffer example_pending \<and>
   disjoint_regions (guest example_pending) \<and>
   (\<exists>w'. Buffer_destroy gpu_fence example_pending = Inr w' \<and>
      calls w' = [MutexLock, FenceWait 1,
                  CopyToGuest \<lparr>data = 5000, size_bytes = 3\<rparr>,
                  CopyToGuest \<lparr>data = 9000, size_bytes = 2\<rparr>,
                  Munmap [\<lparr>data = 4096, size_bytes = 4096\<rparr>, \<lparr>data = 8192, size_bytes = 8192\<rparr>],
                  MutexUnlock] \<and>
      cycle w' = None \<and> backing (env w') 0 = 9 \<and> memory (env w') 5000 = 9)"
proof -
  have dis: "disjoint_regions (guest example_pending)"
    by (simp add: example_pending_def example_world_def example_regions_def overlap_def
        span_end_def)
  from Buffer_destroy_synchronizes_then_unmaps [OF example_pending_fits, of gpu_fence] dis
  obtain w' where d: "Buffer_destroy gpu_fence example_pending = Inr w'"
    and c: "calls w' = calls example_pending @ [MutexLock]
              @ (case cycle example_pending of None \<Rightarrow> []
                 | Some c \<Rightarrow> FenceWait c #
                     snd (gpu_fence c (example_pending\<lparr>calls := calls example_pending @ [MutexLock]\<rparr>)))
              @ map CopyToGuest (guest example_pending)
              @ (case alignedMirror example_pending of None \<Rightarrow> []
                 | Some mapping \<Rightarrow> [Munmap mapping])
              @ [MutexUnlock]"
    and n: "cycle w' = None"
    and b: "backing (env w') =
             (case cycle example_pending of None \<Rightarrow> backing (env example_pending)
              | Some c \<Rightarrow> backing (fst (gpu_fence c
                   (example_pending\<lparr>calls := calls example_pending @ [MutexLock]\<rparr>))))"
    and m: "\<forall>pos < sum_list (map size_bytes (guest example_pending)).
              memory (env w') (flat_address (guest example_pending) pos) = backing (env w') pos"
    by blast
  from b have b0: "backing (env w') 0 = 9"
    by (simp add: example_pending_def gpu_fence_def)
  have "(0::nat) < sum_list (map size_bytes (guest example_pending))"
    by (simp add: example_pending_def example_world_def example_regions_def)
  from m [rule_format, OF this] b0 have "memory (env w') 5000 = 9"
    by (simp add: flat_address_def Let_def example_pending_def example_world_def
        example_regions_def)
  moreover from c have "calls w' = [MutexLock, FenceWait 1,
                  CopyToGuest \<lparr>data = 5000, size_bytes = 3\<rparr>,
                  CopyToGuest \<lparr>data = 9000, size_bytes = 2\<rparr>,
                  Munmap [\<lparr>data = 4096, size_bytes = 4096\<rparr>, \<lparr>data = 8192, size_bytes = 8192\<rparr>],
                  MutexUnlock]"
    by (simp add: example_pending_def example_world_def example_regions_def gpu_fence_def)
  ultimately show ?thesis using d dis example_pending_fits n b0 by blast
qed

text \<open>
  C8 as the specification states it fails for regions that overlap: the copy of a later
  region overwrites the bytes an earlier region has put into the guest. In the Buffer
  over the regions at 5000 and 5004, of eight bytes each, flat offset 4 is guest address
  5004; after the destructor the host byte at offset 4 is 1 and the guest byte at 5004
  is 2, the host byte at offset 8.
\<close>

theorem Buffer_destroy_overlapping_counterexample:
  "sum_list (map size_bytes (guest example_overlapping_world)) =
     size_buffer example_overlapping_world \<and>
   flat_address (guest example_overlapping_world) 4 = 5004 \<and>
   map_sum id (\<lambda>w. (backing (env w) 4, memory (env w) 5004, last (calls w)))
       (Buffer_destroy gpu_fence example_overlapping_world) = Inr (1, 2, MutexUnlock)"
  by (simp add: Buffer_destroy_def SynchronizeGuest_forced_def SynchronizeGuest_def
      WaitOnFence_def gpu_fence_def example_overlapping_world_def example_overlapping_def
      example_env_def flat_address_def memcpy_def Let_def)
section \<open>The view cache\<close>

lemma BufferView_eq:
  "(offset view = off \<and> range_v view = rng \<and> format view = fmt) \<longleftrightarrow>
   view = \<lparr>offset = off, range_v = rng, format = fmt\<rparr>"
  by (cases view) auto

lemma GetView_loop_None:
  "GetView_loop objects vs off rng fmt = None \<longleftrightarrow>
   (\<forall>v \<in> set vs. objects v \<noteq> Some \<lparr>offset = off, range_v = rng, format = fmt\<rparr>)"
  by (induction vs) (auto simp: BufferView_eq split: option.splits)

lemma GetView_loop_Some:
  "GetView_loop objects vs off rng fmt = Some v \<Longrightarrow>
   v \<in> set vs \<and> objects v = Some \<lparr>offset = off, range_v = rng, format = fmt\<rparr>"
  by (induction vs) (auto simp: BufferView_eq split: option.splits if_splits)

lemma GetView_hit:
  assumes inv: "one_view_per_triple w" and v: "v \<in> set (views w)"
    and live: "view_objects (env w) v = Some \<lparr>offset = off, range_v = rng, format = fmt\<rparr>"
  shows "GetView fresh off rng fmt w = (v, w)"
proof -
  let ?objects = "view_objects (env w)"
  let ?live = "filter (\<lambda>v. ?objects v \<noteq> None) (views w)"
  from v live have "GetView_loop ?objects (views w) off rng fmt \<noteq> None"
    by (auto simp: GetView_loop_None)
  then obtain u where u: "GetView_loop ?objects (views w) off rng fmt = Some u" by blast
  from GetView_loop_Some [OF u] have "u \<in> set (views w)"
    and "?objects u = Some \<lparr>offset = off, range_v = rng, format = fmt\<rparr>" by simp_all
  with v live have "u \<in> set ?live" "v \<in> set ?live" "?objects u = ?objects v" by simp_all
  moreover from inv have "inj_on ?objects (set ?live)"
    by (simp add: one_view_per_triple_def distinct_map)
  ultimately have "u = v" by (rule_tac inj_onD)
  with u show ?thesis by (simp add: GetView_def)
qed

lemma GetView_miss:
  assumes "\<forall>v \<in> set (views w).
             view_objects (env w) v \<noteq> Some \<lparr>offset = off, range_v = rng, format = fmt\<rparr>"
  shows "GetView fresh off rng fmt w =
           (fresh,
            w\<lparr>env := (env w)\<lparr>view_objects := (view_objects (env w))
                       (fresh := Some \<lparr>offset = off, range_v = rng, format = fmt\<rparr>)\<rparr>,
              views := views w @ [fresh]\<rparr>)"
  using assms by (simp add: GetView_def GetView_loop_None [symmetric])

lemma GetView_keeps_invariant:
  assumes inv: "one_view_per_triple w" and fresh: "fresh \<notin> set (views w)"
  shows "one_view_per_triple (snd (GetView fresh off rng fmt w))"
proof (cases "GetView_loop (view_objects (env w)) (views w) off rng fmt")
  case (Some v)
  with inv show ?thesis by (simp add: GetView_def)
next
  case None
  define objects where "objects = view_objects (env w)"
  define t where "t = \<lparr>offset = off, range_v = rng, format = fmt\<rparr>"
  define live where "live = filter (\<lambda>v. objects v \<noteq> None) (views w)"
  define objects' where "objects' = objects(fresh := Some t)"
  from None have no: "\<forall>v \<in> set (views w). objects v \<noteq> Some t"
    by (simp add: GetView_loop_None objects_def t_def)
  from fresh have same: "filter (\<lambda>v. objects' v \<noteq> None) (views w) = live"
    unfolding live_def objects'_def by (intro filter_cong) auto
  from fresh have maps: "map objects' live = map objects live"
    unfolding live_def objects'_def by (intro map_cong) auto
  from no have notin: "Some t \<notin> set (map objects live)"
    unfolding live_def by auto
  from inv have d: "distinct (map objects live)"
    by (simp add: one_view_per_triple_def objects_def live_def)
  have alive: "objects' fresh \<noteq> None" and at: "objects' fresh = Some t"
    by (simp_all add: objects'_def)
  have "filter (\<lambda>v. objects' v \<noteq> None) (views w @ [fresh]) = live @ [fresh]"
    unfolding filter_append same using alive by simp
  then have "map objects' (filter (\<lambda>v. objects' v \<noteq> None) (views w @ [fresh])) =
             map objects' live @ [objects' fresh]"
    by simp
  then have "map objects' (filter (\<lambda>v. objects' v \<noteq> None) (views w @ [fresh])) =
             map objects live @ [Some t]"
    unfolding maps at .
  with d notin
  have "distinct (map objects' (filter (\<lambda>v. objects' v \<noteq> None) (views w @ [fresh])))"
    by simp
  moreover from None have "snd (GetView fresh off rng fmt w) =
      w\<lparr>env := (env w)\<lparr>view_objects := objects'\<rparr>, views := views w @ [fresh]\<rparr>"
    by (simp add: GetView_def objects'_def objects_def t_def)
  ultimately show ?thesis
    by (simp add: one_view_per_triple_def)
qed

lemma filter_released:
  "filter (\<lambda>v. (f(u := None)) v \<noteq> None) xs = filter (\<lambda>v. v \<noteq> u) (filter (\<lambda>v. f v \<noteq> None) xs)"
  by (induction xs) auto

lemma release_keeps_invariant:
  assumes "one_view_per_triple w"
  shows "one_view_per_triple (release u w)"
proof -
  define objects where "objects = view_objects (env w)"
  define live where "live = filter (\<lambda>v. objects v \<noteq> None) (views w)"
  have f: "filter (\<lambda>v. (objects(u := None)) v \<noteq> None) (views w) = filter (\<lambda>v. v \<noteq> u) live"
    unfolding live_def by (rule filter_released)
  have m: "map (objects(u := None)) (filter (\<lambda>v. v \<noteq> u) live) =
           map objects (filter (\<lambda>v. v \<noteq> u) live)"
    by (intro map_cong) auto
  from assms have "distinct (map objects live)"
    by (simp add: one_view_per_triple_def objects_def live_def)
  then have "distinct (map objects (filter (\<lambda>v. v \<noteq> u) live))"
    by (rule distinct_map_filter)
  with f m have "distinct (map (objects(u := None))
                   (filter (\<lambda>v. (objects(u := None)) v \<noteq> None) (views w)))"
    by simp
  then show ?thesis
    by (simp add: release_def one_view_per_triple_def objects_def)
qed

text \<open>
  C7, as amended. \<open>GetView\<close> returns the view of the cache that is alive and carries the
  offset, range and format asked for, and leaves the world as it is; if no live entry
  carries them it creates a view under the fresh identity and appends a weak reference
  to the cache. With distinct triples among the live entries before the call (and a
  fresh identity the cache does not hold) they are distinct after it, also after a view
  is released. The cache is never pruned: its entries before the call are its first
  entries after it.
\<close>

theorem GetView_deduplicates:
  "(one_view_per_triple w \<and> v \<in> set (views w) \<and>
    view_objects (env w) v = Some \<lparr>offset = off, range_v = rng, format = fmt\<rparr> \<longrightarrow>
      GetView fresh off rng fmt w = (v, w)) \<and>
   ((\<forall>v \<in> set (views w).
       view_objects (env w) v \<noteq> Some \<lparr>offset = off, range_v = rng, format = fmt\<rparr>) \<longrightarrow>
      GetView fresh off rng fmt w =
        (fresh,
         w\<lparr>env := (env w)\<lparr>view_objects := (view_objects (env w))
                    (fresh := Some \<lparr>offset = off, range_v = rng, format = fmt\<rparr>)\<rparr>,
           views := views w @ [fresh]\<rparr>)) \<and>
   (one_view_per_triple w \<and> fresh \<notin> set (views w) \<longrightarrow>
      one_view_per_triple (snd (GetView fresh off rng fmt w))) \<and>
   (one_view_per_triple w \<longrightarrow> one_view_per_triple (release u w)) \<and>
   take (length (views w)) (views (snd (GetView fresh off rng fmt w))) = views w"
proof (intro conjI impI)
  assume "one_view_per_triple w \<and> v \<in> set (views w) \<and>
    view_objects (env w) v = Some \<lparr>offset = off, range_v = rng, format = fmt\<rparr>"
  then show "GetView fresh off rng fmt w = (v, w)"
    by (simp add: GetView_hit)
next
  assume "\<forall>v \<in> set (views w).
       view_objects (env w) v \<noteq> Some \<lparr>offset = off, range_v = rng, format = fmt\<rparr>"
  then show "GetView fresh off rng fmt w =
        (fresh,
         w\<lparr>env := (env w)\<lparr>view_objects := (view_objects (env w))
                    (fresh := Some \<lparr>offset = off, range_v = rng, format = fmt\<rparr>)\<rparr>,
           views := views w @ [fresh]\<rparr>)"
    by (rule GetView_miss)
next
  assume "one_view_per_triple w \<and> fresh \<notin> set (views w)"
  then show "one_view_per_triple (snd (GetView fresh off rng fmt w))"
    by (simp add: GetView_keeps_invariant)
next
  assume "one_view_per_triple w"
  then show "one_view_per_triple (release u w)"
    by (rule release_keeps_invariant)
next
  show "take (length (views w)) (views (snd (GetView fresh off rng fmt w))) = views w"
    by (simp add: GetView_def split: option.splits)
qed

text \<open>An instance of C7: a hit on the live view 2, a miss that creates view 3, a release.\<close>

theorem GetView_deduplicates_witness:
  "one_view_per_triple example_viewed \<and> 2 \<in> set (views example_viewed) \<and>
   view_objects (env example_viewed) 2 = Some \<lparr>offset = 0, range_v = 4, format = 0\<rparr> \<and>
   GetView 3 0 4 0 example_viewed = (2, example_viewed) \<and>
   view_objects (env example_viewed) 1 \<noteq> Some \<lparr>offset = 8, range_v = 4, format = 0\<rparr> \<and>
   view_objects (env example_viewed) 2 \<noteq> Some \<lparr>offset = 8, range_v = 4, format = 0\<rparr> \<and>
   fst (GetView 3 8 4 0 example_viewed) = 3 \<and>
   views (snd (GetView 3 8 4 0 example_viewed)) = [1, 2, 3] \<and>
   3 \<notin> set (views example_viewed) \<and>
   one_view_per_triple (snd (GetView 3 8 4 0 example_viewed)) \<and>
   one_view_per_triple (release 2 example_viewed)"
proof -
  have inv: "one_view_per_triple example_viewed"
    by (simp add: one_view_per_triple_def example_viewed_def example_world_def example_env_def)
  have facts: "2 \<in> set (views example_viewed)"
    "view_objects (env example_viewed) 2 = Some \<lparr>offset = 0, range_v = 4, format = 0\<rparr>"
    "view_objects (env example_viewed) 1 \<noteq> Some \<lparr>offset = 8, range_v = 4, format = 0\<rparr>"
    "view_objects (env example_viewed) 2 \<noteq> Some \<lparr>offset = 8, range_v = 4, format = 0\<rparr>"
    "3 \<notin> set (views example_viewed)"
    by (simp_all add: example_viewed_def example_world_def example_env_def)
  have miss: "\<forall>v \<in> set (views example_viewed).
       view_objects (env example_viewed) v \<noteq> Some \<lparr>offset = 8, range_v = 4, format = 0\<rparr>"
    by (simp add: example_viewed_def example_world_def example_env_def)
  from GetView_deduplicates [where w = example_viewed and v = 2 and off = 0 and rng = 4
      and fmt = 0 and fresh = 3 and u = 2] inv facts
  have hit: "GetView 3 0 4 0 example_viewed = (2, example_viewed)"
    and rel: "one_view_per_triple (release 2 example_viewed)"
    by blast+
  from GetView_deduplicates [where w = example_viewed and v = 2 and off = 8 and rng = 4
      and fmt = 0 and fresh = 3 and u = 2] inv facts miss
  have new: "GetView 3 8 4 0 example_viewed =
        (3, example_viewed\<lparr>env := (env example_viewed)\<lparr>view_objects :=
               (view_objects (env example_viewed))
                 (3 := Some \<lparr>offset = 8, range_v = 4, format = 0\<rparr>)\<rparr>,
              views := views example_viewed @ [3]\<rparr>)"
    and keeps: "one_view_per_triple (snd (GetView 3 8 4 0 example_viewed))"
    by blast+
  from new have "fst (GetView 3 8 4 0 example_viewed) = 3"
    "views (snd (GetView 3 8 4 0 example_viewed)) = [1, 2, 3]"
    by (simp_all add: example_viewed_def example_world_def)
  with inv facts hit rel keeps show ?thesis by blast
qed

text \<open>
  C7 as the specification states it fails: the expired reference 1 that the scan passes
  is still in the cache after the call.
\<close>

theorem GetView_keeps_dead_reference_counterexample:
  "views example_cache = [1] \<and> view_objects (env example_cache) 1 = None \<and>
   fst (GetView 2 0 4 0 example_cache) = 2 \<and>
   views (snd (GetView 2 0 4 0 example_cache)) = [1, 2]"
  by (simp add: GetView_def example_cache_def example_world_def example_env_def)

section \<open>Deferred guest synchronisation\<close>

lemma SynchronizeGuest_eq:
  assumes "sum_list (map size_bytes (guest w)) \<le> size_buffer w"
  shows "SynchronizeGuest Wait w = Inr (guest_copied (WaitOnFence Wait w))"
proof -
  let ?w' = "WaitOnFence Wait w"
  from assms have "0 + sum_list (map size_bytes (guest ?w')) \<le> size_buffer ?w'"
    by (simp add: WaitOnFence_fields)
  from SynchronizeGuest_loop_eq [OF this] show ?thesis
    by (simp add: SynchronizeGuest_def guest_copied_def Let_def)
qed

lemma SynchronizeHost_loop_keeps:
  "SynchronizeHost_loop ms host w = Inr w' \<Longrightarrow>
   attached (env w') = attached (env w) \<and> cycle w' = cycle w"
proof (induction ms arbitrary: host w)
  case Nil
  then show ?case by simp
next
  case (Cons r rs)
  from Cons.prems have fits: "host + size_bytes r \<le> size_buffer w"
    by (simp add: Let_def split: if_splits)
  with Cons.prems Cons.IH show ?case
    by (fastforce simp: Let_def)
qed

lemma SynchronizeHostWithCycle_loop_keeps:
  "SynchronizeHostWithCycle_loop ms host w = Inr w' \<Longrightarrow>
   attached (env w') = attached (env w) \<and> cycle w' = cycle w"
proof (induction ms arbitrary: host w)
  case Nil
  then show ?case by simp
next
  case (Cons r rs)
  from Cons.prems have fits: "host + size_bytes r \<le> size_buffer w"
    by (simp add: Let_def split: if_splits)
  with Cons.prems Cons.IH show ?case
    by (fastforce simp: Let_def)
qed

lemma SynchronizeGuest_loop_keeps:
  "SynchronizeGuest_loop ms host w = Inr w' \<Longrightarrow>
   attached (env w') = attached (env w) \<and> cycle w' = cycle w"
proof (induction ms arbitrary: host w)
  case Nil
  then show ?case by simp
next
  case (Cons r rs)
  from Cons.prems have fits: "host + size_bytes r \<le> size_buffer w"
    by (simp add: Let_def split: if_splits)
  with Cons.prems Cons.IH show ?case
    by (fastforce simp: Let_def)
qed

lemma WaitOnFence_resolves:
  assumes res: "fence_resolves Wait" and inv: "obligations_on_pending w"
  shows "attached (env (WaitOnFence Wait w)) c = [] \<and> cycle (WaitOnFence Wait w) = None"
proof (cases "cycle w")
  case None
  with inv have "attached (env w) c = []"
    by (auto simp: obligations_on_pending_def)
  with None show ?thesis by (simp add: WaitOnFence_def)
next
  case (Some p)
  have "attached (fst (Wait p w)) c = []"
  proof (rule ccontr)
    assume ne: "attached (fst (Wait p w)) c \<noteq> []"
    with res have "attached (env w) c \<noteq> []" by (simp add: fence_resolves_def)
    with inv Some have "c = p" by (auto simp: obligations_on_pending_def)
    with res ne show False by (simp add: fence_resolves_def)
  qed
  with Some show ?thesis by (simp add: WaitOnFence_def)
qed

lemma WaitOnFence_keeps_obligations:
  assumes "fence_resolves Wait" and "obligations_on_pending w"
  shows "obligations_on_pending (WaitOnFence Wait w)"
  using WaitOnFence_resolves [OF assms] by (simp add: obligations_on_pending_def)

lemma perform_keeps_obligations:
  assumes res: "fence_resolves Wait" and inv: "obligations_on_pending w"
    and ok: "perform Wait operation w = Inr w'"
  shows "obligations_on_pending w'"
proof (cases operation)
  case Op_SynchronizeHost
  with ok have "SynchronizeHost_loop (guest (WaitOnFence Wait w)) 0 (WaitOnFence Wait w) = Inr w'"
    by (simp add: SynchronizeHost_def Let_def)
  from SynchronizeHost_loop_keeps [OF this] WaitOnFence_keeps_obligations [OF res inv]
  show ?thesis by (simp add: obligations_on_pending_def)
next
  case (Op_SynchronizeHostWithCycle pCycle)
  let ?w1 = "if pCycle \<noteq> cycle w then WaitOnFence Wait w else w"
  from Op_SynchronizeHostWithCycle ok
  have "SynchronizeHostWithCycle_loop (guest ?w1) 0 ?w1 = Inr w'"
    by (simp add: SynchronizeHostWithCycle_def Let_def)
  moreover have "obligations_on_pending ?w1"
    using WaitOnFence_keeps_obligations [OF res inv] inv by simp
  ultimately show ?thesis
    using SynchronizeHostWithCycle_loop_keeps [of "guest ?w1" 0 ?w1 w']
    by (simp add: obligations_on_pending_def)
next
  case Op_SynchronizeGuest
  with ok have "SynchronizeGuest_loop (guest (WaitOnFence Wait w)) 0 (WaitOnFence Wait w) = Inr w'"
    by (simp add: SynchronizeGuest_def Let_def)
  from SynchronizeGuest_loop_keeps [OF this] WaitOnFence_keeps_obligations [OF res inv]
  show ?thesis by (simp add: obligations_on_pending_def)
next
  case (Op_SynchronizeGuestWithCycle pCycle)
  with ok obtain c where p: "pCycle = Some c"
    by (cases pCycle) (simp_all add: SynchronizeGuestWithCycle_def Let_def)
  define w1 where "w1 = (if Some c \<noteq> cycle w then WaitOnFence Wait w else w)"
  from Op_SynchronizeGuestWithCycle ok p
  have w': "w' = w1\<lparr>env := (env w1)\<lparr>attached :=
                        (attached (env w1))(c := attached (env w1) c @ [BufferGuestSync])\<rparr>,
                      calls := calls w1 @ [FenceAttach c BufferGuestSync],
                      cycle := Some c\<rparr>"
    by (simp add: SynchronizeGuestWithCycle_def AttachObject_def Let_def w1_def)
  have others: "attached (env w1) c' = []" if "c' \<noteq> c" for c'
  proof (cases "cycle w = Some c")
    case True
    with inv that have "attached (env w) c' = []"
      by (auto simp: obligations_on_pending_def)
    with True show ?thesis by (simp add: w1_def)
  next
    case False
    then have "w1 = WaitOnFence Wait w" by (auto simp: w1_def)
    with WaitOnFence_resolves [OF res inv, of c'] show ?thesis by simp
  qed
  show ?thesis
    unfolding obligations_on_pending_def
  proof (intro allI impI)
    fix c' assume ne: "attached (env w') c' \<noteq> []"
    have "c' = c"
    proof (rule ccontr)
      assume "c' \<noteq> c"
      with others [OF this] ne show False by (simp add: w')
    qed
    then show "cycle w' = Some c'" by (simp add: w')
  qed
next
  case (Op_Write bytes off)
  with ok inv show ?thesis
    by (auto simp: Write_def obligations_on_pending_def
        split: option.splits sum.splits if_splits)
next
  case (Op_GetView fresh off rng fmt)
  with ok inv show ?thesis
    by (auto simp: GetView_def obligations_on_pending_def split: option.splits)
qed

lemma run_keeps_obligations:
  assumes res: "fence_resolves Wait"
  shows "obligations_on_pending w \<Longrightarrow> run Wait operations w = Inr w' \<Longrightarrow>
         obligations_on_pending w'"
proof (induction operations arbitrary: w)
  case Nil
  then show ?case by simp
next
  case (Cons operation operations)
  from Cons.prems(2) obtain w1 where p: "perform Wait operation w = Inr w1"
    and r: "run Wait operations w1 = Inr w'"
    by (auto split: sum.splits)
  from perform_keeps_obligations [OF res Cons.prems(1) p] have "obligations_on_pending w1" .
  from Cons.IH [OF this r] show ?case .
qed

text \<open>
  The wait modelled from the specification: the destructors it runs attach nothing and
  it leaves no dependency on the cycle waited on. A wait on a cycle with nothing
  attached returns at once, so the destructors run by a wait on the pending cycle do
  the same whether the wait they make is \<open>Wait_complete\<close> or the modelled wait itself.
\<close>

lemma BufferGuestSync_destroy_keeps:
  assumes "BufferGuestSync_destroy Wait_complete w = Inr w'"
  shows "attached (env w') = attached (env w)"
proof -
  let ?w0 = "WaitOnFence Wait_complete w"
  from assms have "SynchronizeGuest_loop (guest ?w0) 0 ?w0 = Inr w'"
    by (simp add: BufferGuestSync_destroy_def SynchronizeGuest_def Let_def)
  from SynchronizeGuest_loop_keeps [OF this] show ?thesis
    by (simp add: WaitOnFence_fields Wait_complete_def split: option.splits)
qed

lemma DestroyDependencies_keeps:
  "attached (env (DestroyDependencies Wait_complete dependencies w)) = attached (env w)"
proof (induction dependencies arbitrary: w)
  case Nil
  then show ?case by simp
next
  case (Cons d dependencies)
  show ?case
  proof (cases "BufferGuestSync_destroy Wait_complete w")
    case (Inl f)
    then show ?thesis by (cases d) simp
  next
    case (Inr w')
    with Cons.IH [of w'] BufferGuestSync_destroy_keeps [OF Inr] show ?thesis
      by (cases d) simp
  qed
qed

lemma FenceCycle_Wait_resolves: "fence_resolves FenceCycle_Wait"
  by (simp add: fence_resolves_def FenceCycle_Wait_def Let_def DestroyDependencies_keeps)

lemma FenceCycle_Wait_complete:
  assumes "attached (env w) c = []"
  shows "FenceCycle_Wait c w = Wait_complete c w"
proof -
  from assms have "(attached (env w))(c := []) = attached (env w)" by auto
  with assms show ?thesis by (simp add: FenceCycle_Wait_def Wait_complete_def)
qed

lemma BufferGuestSync_destroy_nested:
  assumes "\<forall>p. cycle w = Some p \<longrightarrow> attached (env w) p = []"
  shows "BufferGuestSync_destroy FenceCycle_Wait w = BufferGuestSync_destroy Wait_complete w"
proof -
  from assms have "WaitOnFence FenceCycle_Wait w = WaitOnFence Wait_complete w"
    by (cases "cycle w") (simp_all add: WaitOnFence_def FenceCycle_Wait_complete)
  then show ?thesis by (simp add: BufferGuestSync_destroy_def SynchronizeGuest_def)
qed

lemma DestroyDependencies_nested:
  "\<forall>p. cycle w = Some p \<longrightarrow> attached (env w) p = [] \<Longrightarrow>
   DestroyDependencies FenceCycle_Wait dependencies w =
   DestroyDependencies Wait_complete dependencies w"
proof (induction dependencies arbitrary: w)
  case Nil
  then show ?case by simp
next
  case (Cons d dependencies)
  have step: "BufferGuestSync_destroy FenceCycle_Wait w = BufferGuestSync_destroy Wait_complete w"
    by (rule BufferGuestSync_destroy_nested [OF Cons.prems])
  show ?case
  proof (cases "BufferGuestSync_destroy Wait_complete w")
    case (Inl f)
    with step show ?thesis by (cases d) simp
  next
    case (Inr w')
    let ?w0 = "WaitOnFence Wait_complete w"
    from Inr have "SynchronizeGuest_loop (guest ?w0) 0 ?w0 = Inr w'"
      by (simp add: BufferGuestSync_destroy_def SynchronizeGuest_def Let_def)
    from SynchronizeGuest_loop_keeps [OF this] have "cycle w' = None"
      by (simp add: WaitOnFence_fields)
    then have "\<forall>p. cycle w' = Some p \<longrightarrow> attached (env w') p = []" by simp
    from Cons.IH [OF this] Inr step show ?thesis by (cases d) simp
  qed
qed

lemma FenceCycle_Wait_reentrant:
  assumes "cycle w = Some c \<or> cycle w = None"
  shows "FenceCycle_Wait c w =
     (let w' = DestroyDependencies FenceCycle_Wait (attached (env w) c)
                 (w\<lparr>env := (env w)\<lparr>attached := (attached (env w))(c := [])\<rparr>, calls := []\<rparr>)
      in (env w', calls w'))"
proof -
  let ?w0 = "w\<lparr>env := (env w)\<lparr>attached := (attached (env w))(c := [])\<rparr>, calls := []\<rparr>"
  from assms have "\<forall>p. cycle ?w0 = Some p \<longrightarrow> attached (env ?w0) p = []" by auto
  from DestroyDependencies_nested [OF this] show ?thesis
    by (simp add: FenceCycle_Wait_def)
qed

lemma WaitOnFence_runs_deferred_copy:
  assumes fits: "sum_list (map size_bytes (guest w)) \<le> size_buffer w"
    and pending: "cycle w = Some q" and one: "attached (env w) q = [BufferGuestSync]"
  shows "WaitOnFence FenceCycle_Wait w =
         guest_copied (w\<lparr>env := (env w)\<lparr>attached := (attached (env w))(q := [])\<rparr>,
                          calls := calls w @ [FenceWait q, FenceWait q], cycle := None\<rparr>)"
proof -
  let ?w0 = "w\<lparr>env := (env w)\<lparr>attached := (attached (env w))(q := [])\<rparr>, calls := []\<rparr>"
  from fits have "sum_list (map size_bytes (guest ?w0)) \<le> size_buffer ?w0" by simp
  from SynchronizeGuest_eq [OF this, of Wait_complete] pending
  have "BufferGuestSync_destroy Wait_complete ?w0 =
        Inr (guest_copied (?w0\<lparr>calls := [FenceWait q], cycle := None\<rparr>))"
    by (simp add: BufferGuestSync_destroy_def WaitOnFence_def Wait_complete_def)
  with pending one show ?thesis
    by (simp add: WaitOnFence_def FenceCycle_Wait_def Let_def guest_copied_def)
qed

text \<open>
  C2, as amended. \<open>SynchronizeGuestWithCycle\<close> called with the pending cycle, or with
  no cycle pending, makes no wait; called while another cycle is pending it waits on
  that cycle first. After that it copies nothing (guest memory and the host allocation
  are those the wait left), attaches one \<open>BufferGuestSync\<close> to its cycle and makes the
  cycle the pending one. The destructor of \<open>BufferGuestSync\<close> is \<open>SynchronizeGuest\<close>:
  a wait on the pending cycle, then the copy back to the guest. The wait modelled from
  the specification destroys the dependency of the cycle, so the deferred copy is made
  while the wait lasts. Provided a fence wait returns with no action left on the cycle
  waited on, as the modelled wait does, every sequence of operations keeps all attached
  actions of the Buffer on one cycle, the pending one; their number is not bounded by
  one.
\<close>

theorem SynchronizeGuestWithCycle_defers_copy:
  "(cycle w = Some c \<or> cycle w = None \<longrightarrow>
      SynchronizeGuestWithCycle Wait (Some c) w =
        Inr (w\<lparr>env := AttachObject c BufferGuestSync (env w),
               calls := calls w @ [FenceAttach c BufferGuestSync],
               cycle := Some c\<rparr>)) \<and>
   (\<forall>p. cycle w = Some p \<and> p \<noteq> c \<longrightarrow>
      SynchronizeGuestWithCycle Wait (Some c) w =
        Inr (w\<lparr>env := AttachObject c BufferGuestSync (fst (Wait p w)),
               calls := calls w @ FenceWait p # snd (Wait p w) @ [FenceAttach c BufferGuestSync],
               cycle := Some c\<rparr>)) \<and>
   memory (AttachObject c BufferGuestSync e) = memory e \<and>
   backing (AttachObject c BufferGuestSync e) = backing e \<and>
   attached (AttachObject c BufferGuestSync e) c = attached e c @ [BufferGuestSync] \<and>
   (sum_list (map size_bytes (guest wd)) \<le> size_buffer wd \<longrightarrow>
      (cycle wd = None \<longrightarrow> BufferGuestSync_destroy Wait wd = Inr (guest_copied wd)) \<and>
      (\<forall>p. cycle wd = Some p \<longrightarrow>
         BufferGuestSync_destroy Wait wd =
           Inr (guest_copied (wd\<lparr>env := fst (Wait p wd),
                                  calls := calls wd @ FenceWait p # snd (Wait p wd),
                                  cycle := None\<rparr>)))) \<and>
   (sum_list (map size_bytes (guest wd)) \<le> size_buffer wd \<and> cycle wd = Some q \<and>
    attached (env wd) q = [BufferGuestSync] \<longrightarrow>
      WaitOnFence FenceCycle_Wait wd =
        guest_copied (wd\<lparr>env := (env wd)\<lparr>attached := (attached (env wd))(q := [])\<rparr>,
                          calls := calls wd @ [FenceWait q, FenceWait q], cycle := None\<rparr>)) \<and>
   fence_resolves FenceCycle_Wait \<and>
   (fence_resolves Wait \<and> obligations_on_pending w \<and> run Wait operations w = Inr wr \<longrightarrow>
      obligations_on_pending wr)"
proof (intro conjI allI impI)
  assume "cycle w = Some c \<or> cycle w = None"
  then show "SynchronizeGuestWithCycle Wait (Some c) w =
        Inr (w\<lparr>env := AttachObject c BufferGuestSync (env w),
               calls := calls w @ [FenceAttach c BufferGuestSync],
               cycle := Some c\<rparr>)"
    by (auto simp: SynchronizeGuestWithCycle_def WaitOnFence_def Let_def)
next
  fix p assume "cycle w = Some p \<and> p \<noteq> c"
  then show "SynchronizeGuestWithCycle Wait (Some c) w =
        Inr (w\<lparr>env := AttachObject c BufferGuestSync (fst (Wait p w)),
               calls := calls w @ FenceWait p # snd (Wait p w) @ [FenceAttach c BufferGuestSync],
               cycle := Some c\<rparr>)"
    by (auto simp: SynchronizeGuestWithCycle_def WaitOnFence_def Let_def)
next
  show "memory (AttachObject c BufferGuestSync e) = memory e"
    by (simp add: AttachObject_def)
next
  show "backing (AttachObject c BufferGuestSync e) = backing e"
    by (simp add: AttachObject_def)
next
  show "attached (AttachObject c BufferGuestSync e) c = attached e c @ [BufferGuestSync]"
    by (simp add: AttachObject_def)
next
  assume "sum_list (map size_bytes (guest wd)) \<le> size_buffer wd" and "cycle wd = None"
  then show "BufferGuestSync_destroy Wait wd = Inr (guest_copied wd)"
    by (simp add: BufferGuestSync_destroy_def SynchronizeGuest_eq WaitOnFence_def)
next
  fix p assume "sum_list (map size_bytes (guest wd)) \<le> size_buffer wd" and "cycle wd = Some p"
  then show "BufferGuestSync_destroy Wait wd =
           Inr (guest_copied (wd\<lparr>env := fst (Wait p wd),
                                  calls := calls wd @ FenceWait p # snd (Wait p wd),
                                  cycle := None\<rparr>))"
    by (simp add: BufferGuestSync_destroy_def SynchronizeGuest_eq WaitOnFence_def)
next
  assume "sum_list (map size_bytes (guest wd)) \<le> size_buffer wd \<and> cycle wd = Some q \<and>
    attached (env wd) q = [BufferGuestSync]"
  then show "WaitOnFence FenceCycle_Wait wd =
        guest_copied (wd\<lparr>env := (env wd)\<lparr>attached := (attached (env wd))(q := [])\<rparr>,
                          calls := calls wd @ [FenceWait q, FenceWait q], cycle := None\<rparr>)"
    using WaitOnFence_runs_deferred_copy by blast
next
  show "fence_resolves FenceCycle_Wait" by (rule FenceCycle_Wait_resolves)
next
  assume "fence_resolves Wait \<and> obligations_on_pending w \<and> run Wait operations w = Inr wr"
  then show "obligations_on_pending wr"
    using run_keeps_obligations by blast
qed

lemma example_host_no_obligations: "obligations_on_pending example_host"
  by (simp add: obligations_on_pending_def example_host_def example_world_def example_env_def)

text \<open>
  An instance of C2: a call with cycle 1 on the example Buffer, whose host allocation
  holds bytes 7, followed by a call with cycle 2. The second call waits on cycle 1;
  the wait destroys the dependency of cycle 1, whose destructor waits once more and
  copies the host allocation to the guest; then the call attaches its own dependency.
\<close>

theorem SynchronizeGuestWithCycle_defers_copy_witness:
  "cycle example_host = None \<and>
   map_sum id (\<lambda>w. (calls w, cycle w, attached (env w) 1, memory (env w) 5000))
     (SynchronizeGuestWithCycle FenceCycle_Wait (Some 1) example_host) =
     Inr ([FenceAttach 1 BufferGuestSync], Some 1, [BufferGuestSync], 0) \<and>
   fence_resolves FenceCycle_Wait \<and> obligations_on_pending example_host \<and>
   (\<exists>wr. run FenceCycle_Wait
          [Op_SynchronizeGuestWithCycle (Some 1), Op_SynchronizeGuestWithCycle (Some 2)]
          example_host = Inr wr \<and>
        obligations_on_pending wr \<and>
        cycle wr = Some 2 \<and> attached (env wr) 1 = [] \<and>
        attached (env wr) 2 = [BufferGuestSync] \<and>
        memory (env wr) 5000 = 7 \<and> memory (env wr) 9001 = 7 \<and>
        calls wr = [FenceAttach 1 BufferGuestSync, FenceWait 1, FenceWait 1,
                    CopyToGuest \<lparr>data = 5000, size_bytes = 3\<rparr>,
                    CopyToGuest \<lparr>data = 9000, size_bytes = 2\<rparr>,
                    FenceAttach 2 BufferGuestSync])"
proof -
  define w1 where "w1 = example_host\<lparr>env := AttachObject 1 BufferGuestSync (env example_host),
                        calls := calls example_host @ [FenceAttach 1 BufferGuestSync],
                        cycle := Some 1\<rparr>"
  define w2 where "w2 = guest_copied (w1\<lparr>env := (env w1)\<lparr>attached := (attached (env w1))(1 := [])\<rparr>,
                          calls := calls w1 @ [FenceWait 1, FenceWait 1], cycle := None\<rparr>)"
  define wr where "wr = w2\<lparr>env := AttachObject 2 BufferGuestSync (env w2),
                        calls := calls w2 @ [FenceAttach 2 BufferGuestSync], cycle := Some 2\<rparr>"
  have none: "cycle example_host = None" by (simp add: example_host_def example_world_def)
  have fits: "sum_list (map size_bytes (guest w1)) \<le> size_buffer w1"
    by (simp add: w1_def example_host_def example_world_def example_regions_def)
  have one: "cycle w1 = Some 1" "attached (env w1) 1 = [BufferGuestSync]"
    by (simp_all add: w1_def AttachObject_def example_host_def example_world_def example_env_def)
  note first = SynchronizeGuestWithCycle_defers_copy
    [where Wait = FenceCycle_Wait and w = example_host and c = 1 and wd = w1 and q = 1
       and wr = wr
       and operations = "[Op_SynchronizeGuestWithCycle (Some 1), Op_SynchronizeGuestWithCycle (Some 2)]"]
  from first none have s1: "SynchronizeGuestWithCycle FenceCycle_Wait (Some 1) example_host = Inr w1"
    unfolding w1_def by blast
  from first fits one have wait: "WaitOnFence FenceCycle_Wait w1 = w2"
    unfolding w2_def by blast
  from first have res: "fence_resolves FenceCycle_Wait" by blast
  have s2: "SynchronizeGuestWithCycle FenceCycle_Wait (Some 2) w1 = Inr wr"
    using one wait by (simp add: SynchronizeGuestWithCycle_def Let_def wr_def)
  from s1 s2 have r: "run FenceCycle_Wait
          [Op_SynchronizeGuestWithCycle (Some 1), Op_SynchronizeGuestWithCycle (Some 2)]
          example_host = Inr wr"
    by simp
  from first res example_host_no_obligations r have o: "obligations_on_pending wr" by blast
  have f: "cycle wr = Some 2" "attached (env wr) 1 = []" "attached (env wr) 2 = [BufferGuestSync]"
    "memory (env wr) 5000 = 7" "memory (env wr) 9001 = 7"
    "calls wr = [FenceAttach 1 BufferGuestSync, FenceWait 1, FenceWait 1,
                    CopyToGuest \<lparr>data = 5000, size_bytes = 3\<rparr>,
                    CopyToGuest \<lparr>data = 9000, size_bytes = 2\<rparr>,
                    FenceAttach 2 BufferGuestSync]"
    by (simp_all add: wr_def w2_def w1_def guest_copied_def AttachObject_def memcpy_def
        example_host_def example_world_def example_env_def example_regions_def)
  have a: "map_sum id (\<lambda>w. (calls w, cycle w, attached (env w) 1, memory (env w) 5000))
     (SynchronizeGuestWithCycle FenceCycle_Wait (Some 1) example_host) =
     Inr ([FenceAttach 1 BufferGuestSync], Some 1, [BufferGuestSync], 0)"
    using s1
    by (simp add: w1_def AttachObject_def example_host_def example_world_def example_env_def)
  from none a res example_host_no_obligations r o f show ?thesis by blast
qed

text \<open>
  C2 as the specification states it fails: two calls with the same cycle leave two
  deferred actions attached, and no wait between them.
\<close>

theorem SynchronizeGuestWithCycle_two_obligations_counterexample:
  "map_sum id (\<lambda>w. (attached (env w) 1, cycle w, calls w))
     (run idle_fence
        [Op_SynchronizeGuestWithCycle (Some 1), Op_SynchronizeGuestWithCycle (Some 1)]
        example_world) =
   Inr ([BufferGuestSync, BufferGuestSync], Some 1,
        [FenceAttach 1 BufferGuestSync, FenceAttach 1 BufferGuestSync])"
  by (simp add: SynchronizeGuestWithCycle_def AttachObject_def WaitOnFence_def Let_def
      example_world_def example_env_def)
section \<open>Geometry\<close>

lemma Buffer_construct_empty: "Buffer_construct PAGE_SIZE Wait e [] = Inl EmptyMappings"
  by (simp add: Buffer_construct_def SetupGuestMappings_def)

text \<open>No function of the Buffer reports a failure to its caller.\<close>

lemma SynchronizeHost_loop_no_failure:
  "SynchronizeHost_loop ms host w \<noteq> Inl InvalidArgument"
  by (induction ms arbitrary: host w) (simp_all add: Let_def)

lemma SynchronizeHostWithCycle_loop_no_failure:
  "SynchronizeHostWithCycle_loop ms host w \<noteq> Inl InvalidArgument"
  by (induction ms arbitrary: host w) (simp_all add: Let_def)

lemma SynchronizeGuest_loop_no_failure:
  "SynchronizeGuest_loop ms host w \<noteq> Inl InvalidArgument"
  by (induction ms arbitrary: host w) (simp_all add: Let_def)

lemma Write_loop_no_failure: "Write_loop mapping pos bytes m \<noteq> Inl InvalidArgument"
  by (induction bytes arbitrary: pos m) (simp_all split: option.splits)

lemma perform_no_failure: "perform Wait operation w \<noteq> Inl InvalidArgument"
proof (cases operation)
  case Op_SynchronizeHost
  then show ?thesis by (simp add: SynchronizeHost_def Let_def SynchronizeHost_loop_no_failure)
next
  case (Op_SynchronizeHostWithCycle pCycle)
  then show ?thesis
    by (simp add: SynchronizeHostWithCycle_def Let_def SynchronizeHostWithCycle_loop_no_failure)
next
  case Op_SynchronizeGuest
  then show ?thesis by (simp add: SynchronizeGuest_def Let_def SynchronizeGuest_loop_no_failure)
next
  case (Op_SynchronizeGuestWithCycle pCycle)
  then show ?thesis by (simp add: SynchronizeGuestWithCycle_def Let_def split: option.splits)
next
  case (Op_Write bytes off)
  with Write_loop_no_failure show ?thesis
    by (auto simp: Write_def split: option.splits sum.splits)
next
  case (Op_GetView fresh off rng fmt)
  then show ?thesis by simp
qed

lemma Buffer_construct_no_failure:
  "Buffer_construct PAGE_SIZE Wait e ms \<noteq> Inl InvalidArgument"
proof (cases "SetupGuestMappings PAGE_SIZE ms")
  case (Inl f)
  then have "f = EmptyMappings"
    by (simp add: SetupGuestMappings_def Let_def split: if_splits prod.splits)
  with Inl show ?thesis by (simp add: Buffer_construct_def)
next
  case (Inr r)
  then show ?thesis
    by (cases r)
       (simp add: Buffer_construct_def SynchronizeHost_def Let_def SynchronizeHost_loop_no_failure)
qed

lemma Buffer_destroy_no_failure: "Buffer_destroy Wait w \<noteq> Inl InvalidArgument"
  using SynchronizeGuest_loop_no_failure
  by (auto simp: Buffer_destroy_def SynchronizeGuest_forced_def SynchronizeGuest_def Let_def
      split: sum.splits)

text \<open>
  C9, as amended. Neither the constructor nor \<open>GetView\<close> validates geometry. Every
  non-empty region set whose lengths stay within 64 bits is accepted, overlapping or
  not: the constructor returns a Buffer over the regions as given, of the size of their
  lengths together, with the mirror \<open>SetupGuestMappings\<close> builds for them. \<open>GetView\<close>
  returns a view that carries the offset and range asked for, whatever the size of the
  Buffer. The constructor, the destructor and the operations of the Buffer report no
  failure, whatever their arguments.
\<close>

theorem geometry_is_not_validated:
  "(0 < PAGE_SIZE \<and> ms \<noteq> [] \<and> regions_fit PAGE_SIZE ms \<longrightarrow>
      (\<exists>request m. SetupGuestMappings PAGE_SIZE ms = Inr (request, m) \<and>
         map_sum id (\<lambda>w. (size_buffer w, guest w, mirror w, alignedMirror w))
             (Buffer_construct PAGE_SIZE Wait e ms) =
           Inr (sum_list (map size_bytes ms), ms, m, Some (mapped_spans PAGE_SIZE request)))) \<and>
   view_objects (env (snd (GetView fresh off rng fmt w))) (fst (GetView fresh off rng fmt w)) =
     Some \<lparr>offset = off, range_v = rng, format = fmt\<rparr> \<and>
   Buffer_construct PAGE_SIZE Wait e ms \<noteq> Inl InvalidArgument \<and>
   Buffer_destroy Wait w \<noteq> Inl InvalidArgument \<and>
   perform Wait operation w \<noteq> Inl InvalidArgument"
proof (intro conjI impI)
  assume "0 < PAGE_SIZE \<and> ms \<noteq> [] \<and> regions_fit PAGE_SIZE ms"
  then obtain request off where
    "SetupGuestMappings PAGE_SIZE ms = Inr (request, off, sum_list (map size_bytes ms))"
    and "Buffer_construct PAGE_SIZE Wait e ms =
             Inr \<lparr>size_buffer = sum_list (map size_bytes ms), guest = ms,
                  mirror = (off, sum_list (map size_bytes ms)),
                  alignedMirror = Some (mapped_spans PAGE_SIZE request),
                  cycle = None, views = [],
                  env = e\<lparr>backing := host_image (memory e) ms 0 (backing e)\<rparr>,
                  calls = [AllocateBuffer (sum_list (map size_bytes ms)), MirrorRequest request]
                          @ map CopyToHost ms\<rparr>"
    using Buffer_construct_eq [of PAGE_SIZE ms Wait e] by blast
  then show "\<exists>request m. SetupGuestMappings PAGE_SIZE ms = Inr (request, m) \<and>
         map_sum id (\<lambda>w. (size_buffer w, guest w, mirror w, alignedMirror w))
             (Buffer_construct PAGE_SIZE Wait e ms) =
           Inr (sum_list (map size_bytes ms), ms, m, Some (mapped_spans PAGE_SIZE request))"
    by simp
next
  show "view_objects (env (snd (GetView fresh off rng fmt w))) (fst (GetView fresh off rng fmt w)) =
     Some \<lparr>offset = off, range_v = rng, format = fmt\<rparr>"
  proof (cases "GetView_loop (view_objects (env w)) (views w) off rng fmt")
    case None
    then show ?thesis by (simp add: GetView_def)
  next
    case (Some v)
    with GetView_loop_Some [OF Some] show ?thesis by (simp add: GetView_def)
  qed
next
  show "Buffer_construct PAGE_SIZE Wait e ms \<noteq> Inl InvalidArgument"
    by (rule Buffer_construct_no_failure)
next
  show "Buffer_destroy Wait w \<noteq> Inl InvalidArgument" by (rule Buffer_destroy_no_failure)
next
  show "perform Wait operation w \<noteq> Inl InvalidArgument" by (rule perform_no_failure)
qed

text \<open>
  An instance of C9: two regions that share four bytes, and the mirror built over them.
\<close>

theorem geometry_is_not_validated_witness:
  "(0::nat) < 4096 \<and> example_overlapping \<noteq> [] \<and> regions_fit 4096 example_overlapping \<and>
   overlap (example_overlapping ! 0) (example_overlapping ! 1) \<and>
   SetupGuestMappings 4096 example_overlapping =
     Inr (CreateMirrors [\<lparr>data = 4096, size_bytes = 912\<rparr>, \<lparr>data = 5004, size_bytes = 4096\<rparr>],
          904, 16) \<and>
   map_sum id (\<lambda>w. (size_buffer w, guest w, mirror w, alignedMirror w))
       (Buffer_construct 4096 idle_fence example_env example_overlapping) =
     Inr (16, example_overlapping, (904, 16),
          Some [\<lparr>data = 4096, size_bytes = 4096\<rparr>, \<lparr>data = 4096, size_bytes = 8192\<rparr>])"
proof -
  have h: "(0::nat) < 4096 \<and> example_overlapping \<noteq> [] \<and> regions_fit 4096 example_overlapping"
    by (simp add: example_overlapping_def regions_fit_def AlignUp_def AlignDown_def)
  have o: "overlap (example_overlapping ! 0) (example_overlapping ! 1)"
    by (simp add: example_overlapping_def overlap_def span_end_def)
  have s: "SetupGuestMappings 4096 example_overlapping =
     Inr (CreateMirrors [\<lparr>data = 4096, size_bytes = 912\<rparr>, \<lparr>data = 5004, size_bytes = 4096\<rparr>],
          904, 16)"
    by (simp add: SetupGuestMappings_def example_overlapping_def AlignDown_def AlignUp_def
        Let_def)
  from geometry_is_not_validated [of 4096 example_overlapping idle_fence example_env] h s
  have "map_sum id (\<lambda>w. (size_buffer w, guest w, mirror w, alignedMirror w))
       (Buffer_construct 4096 idle_fence example_env example_overlapping) =
     Inr (sum_list (map size_bytes example_overlapping), example_overlapping, (904, 16),
          Some (mapped_spans 4096 (CreateMirrors
            [\<lparr>data = 4096, size_bytes = 912\<rparr>, \<lparr>data = 5004, size_bytes = 4096\<rparr>])))"
    by auto
  then have "map_sum id (\<lambda>w. (size_buffer w, guest w, mirror w, alignedMirror w))
       (Buffer_construct 4096 idle_fence example_env example_overlapping) =
     Inr (16, example_overlapping, (904, 16),
          Some [\<lparr>data = 4096, size_bytes = 4096\<rparr>, \<lparr>data = 4096, size_bytes = 8192\<rparr>])"
    by (simp add: example_overlapping_def mapped_spans_def page_span_def AlignDown_def
        AlignUp_def span_end_def)
  with h o s show ?thesis by blast
qed

text \<open>
  C9 as the specification states it fails: the constructor accepts two overlapping
  regions, \<open>GetView\<close> returns a view of 100 bytes at offset 4 of a Buffer of five
  bytes, and the constructor given no region reports nothing, it takes \<open>front()\<close> of
  the empty vector.
\<close>

theorem geometry_violations_accepted_counterexample:
  "overlap \<lparr>data = 5000, size_bytes = 8\<rparr> \<lparr>data = 5004, size_bytes = 8\<rparr> \<and>
   map_sum id size_buffer
     (Buffer_construct 4096 idle_fence example_env
        [\<lparr>data = 5000, size_bytes = 8\<rparr>, \<lparr>data = 5004, size_bytes = 8\<rparr>]) = Inr 16 \<and>
   size_buffer example_world = 5 \<and>
   fst (GetView 1 4 100 0 example_world) = 1 \<and>
   view_objects (env (snd (GetView 1 4 100 0 example_world))) 1 =
     Some \<lparr>offset = 4, range_v = 100, format = 0\<rparr> \<and>
   Buffer_construct 4096 idle_fence example_env [] = Inl EmptyMappings"
  by (simp add: overlap_def span_end_def Buffer_construct_def BufferSize_def
      SetupGuestMappings_def AlignDown_def AlignUp_def SynchronizeHost_def WaitOnFence_def
      Let_def GetView_def example_world_def example_env_def mapped_spans_def page_span_def)

section \<open>Locking a view\<close>

lemma fire_invariant:
  "lock_invariant s \<Longrightarrow> fire e s = Some s' \<Longrightarrow> lock_invariant s'"
  by (cases e; cases "pc s") (auto simp: lock_invariant_def split: if_splits)

lemma exec_invariant:
  "lock_invariant s \<Longrightarrow> exec evs s = Some s' \<Longrightarrow> lock_invariant s'"
proof (induction evs arbitrary: s)
  case Nil
  then show ?case by simp
next
  case (Cons e evs)
  from Cons.prems(2) obtain s1 where f: "fire e s = Some s1" and r: "exec evs s1 = Some s'"
    by (auto split: option.splits)
  from fire_invariant [OF Cons.prems(1) f] have "lock_invariant s1" .
  from Cons.IH [OF this r] show ?case .
qed

lemma fire_returned: "returned (pc s) \<Longrightarrow> fire e s = None"
  by (cases e; cases "pc s") simp_all

lemma fire_returns_by_load:
  "\<not> returned (pc s) \<Longrightarrow> fire e s = Some s' \<Longrightarrow> returned (pc s') \<Longrightarrow> e = Load"
  by (cases e; cases "pc s") (auto split: if_splits)

lemma exec_returned: "returned (pc s) \<Longrightarrow> exec evs s = Some s' \<Longrightarrow> evs = []"
  by (cases evs) (simp_all add: fire_returned)

lemma exec_returns_by_load:
  "\<not> returned (pc s) \<Longrightarrow> exec evs s = Some s' \<Longrightarrow> returned (pc s') \<Longrightarrow>
   evs \<noteq> [] \<and> last evs = Load"
proof (induction evs arbitrary: s)
  case Nil
  then show ?case by simp
next
  case (Cons e evs)
  from Cons.prems(2) obtain s1 where f: "fire e s = Some s1" and r: "exec evs s1 = Some s'"
    by (auto split: option.splits)
  show ?case
  proof (cases "returned (pc s1)")
    case True
    from exec_returned [OF True r] have "evs = []" .
    moreover from fire_returns_by_load [OF Cons.prems(1) f True] have "e = Load" .
    ultimately show ?thesis by simp
  next
    case False
    from Cons.IH [OF False r Cons.prems(3)] show ?thesis by simp
  qed
qed

text \<open>
  C3, as amended. In every run of \<open>lock\<close> or \<open>try_lock\<close> that starts with no mutex
  held, whatever the other threads replace and lock, the calling thread never holds
  more than one mutex; when \<open>lock\<close> has returned, the last step was a load that found
  \<open>buffer\<close> equal to \<open>backing\<close>, and the thread holds the mutex of that Buffer and no
  other; when \<open>try_lock\<close> has returned, the last step was a load that found \<open>buffer\<close>
  equal to \<open>backing\<close>, and the thread holds the mutex of that Buffer if the result is
  true and none if it is false.
\<close>

theorem lock_returns_holding_referenced_buffer:
  assumes start: "held s = []" and call: "pc s = Lock_load \<or> pc s = Try_load"
    and run: "exec evs s = Some s'"
  shows "length (held s') \<le> 1 \<and>
         (\<forall>b. pc s' = Lock_return b \<longrightarrow>
            buffer s' = b \<and> held s' = [b] \<and> b \<notin> busy s' \<and> last evs = Load) \<and>
         (\<forall>b success. pc s' = Try_return b success \<longrightarrow>
            buffer s' = b \<and> held s' = (if success then [b] else []) \<and> last evs = Load)"
proof -
  from start call have "lock_invariant s" by (auto simp: lock_invariant_def)
  from exec_invariant [OF this run] have inv: "lock_invariant s'" .
  from call have nr: "\<not> returned (pc s)" by auto
  have one: "length (held s') \<le> 1"
    using inv by (cases "pc s'") (auto simp: lock_invariant_def)
  have lk: "\<forall>b. pc s' = Lock_return b \<longrightarrow>
            buffer s' = b \<and> held s' = [b] \<and> b \<notin> busy s' \<and> last evs = Load"
  proof (intro allI impI)
    fix b assume p: "pc s' = Lock_return b"
    then have "returned (pc s')" by simp
    from exec_returns_by_load [OF nr run this] inv p
    show "buffer s' = b \<and> held s' = [b] \<and> b \<notin> busy s' \<and> last evs = Load"
      by (simp add: lock_invariant_def)
  qed
  have tr: "\<forall>b success. pc s' = Try_return b success \<longrightarrow>
            buffer s' = b \<and> held s' = (if success then [b] else []) \<and> last evs = Load"
  proof (intro allI impI)
    fix b success assume p: "pc s' = Try_return b success"
    then have "returned (pc s')" by simp
    from exec_returns_by_load [OF nr run this] inv p
    show "buffer s' = b \<and> held s' = (if success then [b] else []) \<and> last evs = Load"
      by (simp add: lock_invariant_def)
  qed
  from one lk tr show ?thesis by blast
qed

lemma example_lock_run:
  "exec [Load, Replace 2, Lock 1, Load, Unlock 1, Lock 2, Load] example_view =
     Some \<lparr>buffer = 2, held = [2], busy = {}, pc = Lock_return 2\<rparr>"
  by (simp add: example_view_def)

lemma example_try_run:
  "exec [Load, Other_lock 1, TryLock 1 False, Replace 2, Load, TryLock 2 True, Load] example_try =
     Some \<lparr>buffer = 2, held = [2], busy = {1}, pc = Try_return 2 True\<rparr>"
  by (simp add: example_try_def)

text \<open>
  An instance of C3: Buffer 1 is replaced by Buffer 2 between the first load and the
  acquisition; \<open>lock\<close> gives up mutex 1 and returns with mutex 2, and \<open>try_lock\<close>, which
  failed on the busy mutex 1, tries again on Buffer 2.
\<close>

theorem lock_returns_holding_referenced_buffer_witness:
  "held example_view = [] \<and> pc example_view = Lock_load \<and>
   exec [Load, Replace 2, Lock 1, Load, Unlock 1, Lock 2, Load] example_view =
     Some \<lparr>buffer = 2, held = [2], busy = {}, pc = Lock_return 2\<rparr> \<and>
   last [Load, Replace 2, Lock 1, Load, Unlock 1, Lock 2, Load] = Load \<and>
   held example_try = [] \<and> pc example_try = Try_load \<and>
   exec [Load, Other_lock 1, TryLock 1 False, Replace 2, Load, TryLock 2 True, Load] example_try =
     Some \<lparr>buffer = 2, held = [2], busy = {1}, pc = Try_return 2 True\<rparr>"
proof -
  have a: "held example_view = []" "pc example_view = Lock_load \<or> pc example_view = Try_load"
    "pc example_view = Lock_load"
    by (simp_all add: example_view_def)
  have b: "held example_try = []" "pc example_try = Lock_load \<or> pc example_try = Try_load"
    "pc example_try = Try_load"
    by (simp_all add: example_try_def)
  from lock_returns_holding_referenced_buffer [OF a(1) a(2) example_lock_run]
  have "last [Load, Replace 2, Lock 1, Load, Unlock 1, Lock 2, Load] = Load"
    by simp
  moreover
  from lock_returns_holding_referenced_buffer [OF b(1) b(2) example_try_run]
  have "buffer \<lparr>buffer = 2, held = [2], busy = {1}, pc = Try_return 2 True\<rparr> = 2"
    by simp
  ultimately show ?thesis
    using a b example_lock_run example_try_run by blast
qed

text \<open>
  C3 as the specification states it fails: \<open>buffer\<close> is replaced twice between the
  acquisition of mutex 1 and the second load, which finds Buffer 1 again, and \<open>lock\<close>
  returns.
\<close>

theorem lock_replaced_between_acquisition_and_check_counterexample:
  "exec [Load, Lock 1, Replace 2, Replace 1, Load] example_view =
     Some \<lparr>buffer = 1, held = [1], busy = {}, pc = Lock_return 1\<rparr> \<and>
   since_acquire [Load, Lock 1, Replace 2, Replace 1, Load] = [Replace 2, Replace 1, Load]"
  by (simp add: example_view_def since_acquire_def)

end
